theory Spec2Isabelle
  imports Main "HOL-Library.Word" "HOL-Library.Monad_Syntax"
begin

section \<open>The node graph of \<open>Set.h\<close>\<close>

text \<open>
  \<open>Set<ValueType>\<close> keeps its elements in an AA-tree of nodes linked by \<open>left_son\<close>,
  \<open>right_son\<close> and \<open>parent\<close> pointers. A node pointer is an address; \<open>nullptr\<close> is
  \<open>None\<close>. \<open>size_t\<close> is taken at 64 bits; \<open>ValueType\<close> is any type with a linear
  order for \<open>operator<\<close>. A fault (dereferencing \<open>nullptr\<close>) is the result \<open>None\<close>.

  The operations are given at two levels. In this section a \<open>Node*\<close> stands for the
  tree reachable from it through \<open>left_son\<close> and \<open>right_son\<close>: a value of type
  \<open>tree\<close>, \<open>Null\<close> for \<open>nullptr\<close>, in which every node keeps its address, its
  \<open>value\<close> and its \<open>level\<close>. The assignments to \<open>parent\<close> do not show at this level.
  In the section on nodes with parent links the same operations work on the heap of
  nodes, assignment by assignment, and the iterator walks the \<open>parent\<close> pointers
  there. The operations on the heap are proved to refine the operations on trees
  (\<open>Insert_h_refines\<close>, \<open>Erase_h_refines\<close>, \<open>reachable_heap\<close>).
\<close>

type_synonym addr = nat
type_synonym size_t = "64 word"

datatype 'a tree = Null | Node "'a tree" addr 'a size_t "'a tree"

definition BASIC_LEVEL :: size_t where
  "BASIC_LEVEL = 1"

definition EMPTY_SIZE :: size_t where
  "EMPTY_SIZE = 0"

text \<open>The pointer held in a \<open>Node*\<close> variable whose reachable tree is \<open>t\<close>.\<close>

fun ptr :: "'a tree \<Rightarrow> addr option" where
  "ptr Null = None"
| "ptr (Node l a x lv r) = Some a"

subsection \<open>Rotations\<close>

text \<open>\<open>Skew\<close>: a right rotation when the left son has the level of the vertex.\<close>

fun Skew :: "'a tree \<Rightarrow> 'a tree option" where
  "Skew Null = None"
| "Skew (Node l a x lv r) =
     (case l of
        Null \<Rightarrow> Some (Node l a x lv r)
      | Node sl sa sx slv sr \<Rightarrow>
          if slv \<noteq> lv then Some (Node l a x lv r)
          else Some (Node sl sa sx slv (Node sr a x lv r)))"

text \<open>
  \<open>Split\<close>: a left rotation when the right son of the right son has the level of the
  vertex; the promoted node's level is incremented (\<open>++s->level\<close>, wrapping as
  \<open>size_t\<close> does).
\<close>

fun Split :: "'a tree \<Rightarrow> 'a tree option" where
  "Split Null = None"
| "Split (Node l a x lv r) =
     (case r of
        Null \<Rightarrow> Some (Node l a x lv r)
      | Node sl sa sx slv sr \<Rightarrow>
          (case sr of
             Null \<Rightarrow> Some (Node l a x lv r)
           | Node rrl rra rrx rrlv rrr \<Rightarrow>
               if lv \<noteq> rrlv then Some (Node l a x lv r)
               else Some (Node (Node l a x lv sl) sa sx (slv + 1) sr)))"

subsection \<open>Insert\<close>

text \<open>
  \<open>Insert(t, value, inserted_vertex)\<close> also changes the member \<open>set_size_\<close>, so the
  model takes the size and returns the new root, the pointer written to
  \<open>inserted_vertex\<close> and the new size. \<open>fresh\<close> is the address that
  \<open>new Node(value)\<close> returns if the call allocates. After the recursive call the
  source writes \<open>t->left_son->parent\<close>, which faults on a null son.
\<close>

fun Insert :: "'a::linorder tree \<Rightarrow> 'a \<Rightarrow> addr \<Rightarrow> size_t
    \<Rightarrow> ('a tree \<times> addr \<times> size_t) option" where
  "Insert Null v fresh sz = Some (Node Null fresh v BASIC_LEVEL Null, fresh, sz + 1)"
| "Insert (Node l a x lv r) v fresh sz =
     (if v < x then
        do {
          (l', ins, sz') \<leftarrow> Insert l v fresh sz;
          if l' = Null then None
          else do {
            t1 \<leftarrow> Skew (Node l' a x lv r);
            t2 \<leftarrow> Split t1;
            Some (t2, ins, sz')
          }
        }
      else if x < v then
        do {
          (r', ins, sz') \<leftarrow> Insert r v fresh sz;
          if r' = Null then None
          else do {
            t1 \<leftarrow> Skew (Node l a x lv r');
            t2 \<leftarrow> Split t1;
            Some (t2, ins, sz')
          }
        }
      else Some (Node l a x lv r, a, sz))"

subsection \<open>Erase\<close>

fun lvl :: "'a tree \<Rightarrow> size_t" where
  "lvl Null = 0"
| "lvl (Node l a x lv r) = lv"

fun set_level :: "'a tree \<Rightarrow> size_t \<Rightarrow> 'a tree" where
  "set_level Null n = Null"
| "set_level (Node l a x lv r) n = Node l a x n r"

text \<open>\<open>DecreaseLevel\<close> lowers the level of the vertex, and of its right son with it.\<close>

fun DecreaseLevel :: "'a tree \<Rightarrow> 'a tree option" where
  "DecreaseLevel Null = None"
| "DecreaseLevel (Node l a x lv r) =
     (let expected_level = (if l = Null \<or> r = Null then 1 else min (lvl l) (lvl r) + 1)
      in if lv > expected_level then
           Some (Node l a x expected_level
                  (if r \<noteq> Null \<and> lvl r > expected_level then set_level r expected_level else r))
         else Some (Node l a x lv r))"

text \<open>
  The loops of \<open>Successor\<close> and \<open>Predecessor\<close>; the result is the node they stop at
  (with its subtree), and they fault when started at \<open>nullptr\<close>.
\<close>

fun leftmost :: "'a tree \<Rightarrow> 'a tree option" where
  "leftmost Null = None"
| "leftmost (Node l a x lv r) = (if l \<noteq> Null then leftmost l else Some (Node l a x lv r))"

fun rightmost :: "'a tree \<Rightarrow> 'a tree option" where
  "rightmost Null = None"
| "rightmost (Node l a x lv r) = (if r \<noteq> Null then rightmost r else Some (Node l a x lv r))"

fun Successor :: "'a tree \<Rightarrow> 'a tree option" where
  "Successor Null = None"
| "Successor (Node l a x lv r) = leftmost r"

fun Predecessor :: "'a tree \<Rightarrow> 'a tree option" where
  "Predecessor Null = None"
| "Predecessor (Node l a x lv r) = rightmost l"

fun value_of :: "'a tree \<Rightarrow> 'a option" where
  "value_of Null = None"
| "value_of (Node l a x lv r) = Some x"

text \<open>
  \<open>if (vertex->right_son != nullptr) vertex->right_son = f(vertex->right_son);\<close>
\<close>

fun on_right_son :: "('a tree \<Rightarrow> 'a tree option) \<Rightarrow> 'a tree \<Rightarrow> 'a tree option" where
  "on_right_son f Null = None"
| "on_right_son f (Node l a x lv r) =
     (if r \<noteq> Null then do { r' \<leftarrow> f r; Some (Node l a x lv r') }
      else Some (Node l a x lv r))"

text \<open>
  The tail of \<open>Erase\<close> after \<open>DecreaseLevel(vertex)\<close>: \<open>Skew\<close> on the right son and
  on its right son, \<open>Split\<close> on the vertex and on its right son.
\<close>

definition Erase_rebalance :: "'a tree \<Rightarrow> 'a tree option" where
  "Erase_rebalance vertex =
     do {
       v1 \<leftarrow> on_right_son (\<lambda>r. do { r' \<leftarrow> Skew r; on_right_son Skew r' }) vertex;
       v2 \<leftarrow> Split v1;
       on_right_son Split v2
     }"

text \<open>
  \<open>Erase(vertex, value)\<close> with the member \<open>set_size_\<close> passed through. A vertex
  holding the value is deleted when it is a leaf; otherwise its value is overwritten
  with the successor's (no left son) or the predecessor's, and that value is erased
  from the subtree it came from.
\<close>

fun Erase :: "'a::linorder tree \<Rightarrow> 'a \<Rightarrow> size_t \<Rightarrow> ('a tree \<times> size_t) option" where
  "Erase Null v sz = Some (Null, sz)"
| "Erase (Node l a x lv r) v sz =
     (if v < x then
        do {
          (l', sz') \<leftarrow> Erase l v sz;
          t1 \<leftarrow> DecreaseLevel (Node l' a x lv r);
          t2 \<leftarrow> Erase_rebalance t1;
          Some (t2, sz')
        }
      else if x < v then
        do {
          (r', sz') \<leftarrow> Erase r v sz;
          t1 \<leftarrow> DecreaseLevel (Node l a x lv r');
          t2 \<leftarrow> Erase_rebalance t1;
          Some (t2, sz')
        }
      else if l = Null \<and> r = Null then Some (Null, sz - 1)
      else if l = Null then
        do {
          s \<leftarrow> Successor (Node l a x lv r);
          sv \<leftarrow> value_of s;
          (r', sz') \<leftarrow> Erase r sv sz;
          t1 \<leftarrow> DecreaseLevel (Node l a sv lv r');
          t2 \<leftarrow> Erase_rebalance t1;
          Some (t2, sz')
        }
      else
        do {
          s \<leftarrow> Predecessor (Node l a x lv r);
          sv \<leftarrow> value_of s;
          (l', sz') \<leftarrow> Erase l sv sz;
          t1 \<leftarrow> DecreaseLevel (Node l' a sv lv r);
          t2 \<leftarrow> Erase_rebalance t1;
          Some (t2, sz')
        })"

subsection \<open>Find and LowerBound\<close>

text \<open>Both descend by comparison and return a node pointer; \<open>ans\<close> is the loop variable
  of \<open>LowerBound\<close>, \<open>nullptr\<close> at the start.\<close>

fun Find :: "'a::linorder tree \<Rightarrow> 'a \<Rightarrow> addr option" where
  "Find Null v = None"
| "Find (Node l a x lv r) v =
     (if v < x then Find l v
      else if x < v then Find r v
      else Some a)"

fun LowerBound_loop :: "'a::linorder tree \<Rightarrow> 'a \<Rightarrow> addr option \<Rightarrow> addr option" where
  "LowerBound_loop Null v ans = ans"
| "LowerBound_loop (Node l a x lv r) v ans =
     (if v < x then LowerBound_loop l v (Some a)
      else if x < v then LowerBound_loop r v ans
      else Some a)"

definition LowerBound :: "'a::linorder tree \<Rightarrow> 'a \<Rightarrow> addr option" where
  "LowerBound vertex v = LowerBound_loop vertex v None"

section \<open>The container and its iterator\<close>

text \<open>
  A \<open>Set\<close> object has the members \<open>tree_root_\<close> (here with the tree it points to) and
  \<open>set_size_\<close>; the fields are written \<open>tree_root\<close> and \<open>set_size\<close>, since a name
  cannot end in an underscore here. An iterator holds the address of its owner and a node pointer; the end
  iterator has the node pointer \<open>nullptr\<close>.
\<close>

record 'a Set =
  tree_root :: "'a tree"
  set_size :: size_t

record iterator =
  iterator_owner :: addr
  current_vertex :: "addr option"

definition Set_default :: "'a Set" where
  "Set_default = \<lparr>tree_root = Null, set_size = EMPTY_SIZE\<rparr>"

text \<open>\<open>insert\<close>: the flag returned is \<open>set_size_ == previous_size\<close>.\<close>

definition Set_insert :: "addr \<Rightarrow> 'a::linorder Set \<Rightarrow> 'a \<Rightarrow> addr
    \<Rightarrow> ((iterator \<times> bool) \<times> 'a Set) option" where
  "Set_insert this S v fresh =
     (let previous_size = set_size S in
      do {
        (t, inserted_vertex, sz) \<leftarrow> Insert (tree_root S) v fresh (set_size S);
        Some ((\<lparr>iterator_owner = this, current_vertex = Some inserted_vertex\<rparr>,
               sz = previous_size),
              \<lparr>tree_root = t, set_size = sz\<rparr>)
      })"

text \<open>\<open>erase\<close>: the count returned is \<open>previous_size - set_size_\<close> in \<open>size_t\<close>.\<close>

definition Set_erase :: "'a::linorder Set \<Rightarrow> 'a \<Rightarrow> (size_t \<times> 'a Set) option" where
  "Set_erase S v =
     (let previous_size = set_size S in
      do {
        (t, sz) \<leftarrow> Erase (tree_root S) v (set_size S);
        Some (previous_size - sz, \<lparr>tree_root = t, set_size = sz\<rparr>)
      })"

definition Set_find :: "addr \<Rightarrow> 'a::linorder Set \<Rightarrow> 'a \<Rightarrow> iterator" where
  "Set_find this S v = \<lparr>iterator_owner = this, current_vertex = Find (tree_root S) v\<rparr>"

definition Set_lower_bound :: "addr \<Rightarrow> 'a::linorder Set \<Rightarrow> 'a \<Rightarrow> iterator" where
  "Set_lower_bound this S v =
     \<lparr>iterator_owner = this, current_vertex = LowerBound (tree_root S) v\<rparr>"

text \<open>\<open>begin\<close> walks left while the node and its left son are not null.\<close>

fun begin_loop :: "'a tree \<Rightarrow> addr option" where
  "begin_loop Null = None"
| "begin_loop (Node l a x lv r) = (if l \<noteq> Null then begin_loop l else Some a)"

definition Set_begin :: "addr \<Rightarrow> 'a Set \<Rightarrow> iterator" where
  "Set_begin this S = \<lparr>iterator_owner = this, current_vertex = begin_loop (tree_root S)\<rparr>"

definition Set_end :: "addr \<Rightarrow> 'a Set \<Rightarrow> iterator" where
  "Set_end this S = \<lparr>iterator_owner = this, current_vertex = None\<rparr>"

definition Set_size :: "'a Set \<Rightarrow> size_t" where
  "Set_size S = set_size S"

definition Set_empty :: "'a Set \<Rightarrow> bool" where
  "Set_empty S = (Set_size S = EMPTY_SIZE)"

text \<open>\<open>operator!=\<close> and \<open>operator==\<close> of the iterator.\<close>

definition it_neq :: "iterator \<Rightarrow> iterator \<Rightarrow> bool" where
  "it_neq this it =
     (current_vertex it \<noteq> current_vertex this \<or> iterator_owner it \<noteq> iterator_owner this)"

definition it_eq :: "iterator \<Rightarrow> iterator \<Rightarrow> bool" where
  "it_eq this it = (\<not> it_neq this it)"

subsection \<open>Move construction and move assignment\<close>

text \<open>
  Both take a reference to another \<open>Set\<close>, which may be the object itself, so the
  objects live in a store and are read and written through their addresses.
  \<open>std::swap(a, b)\<close> is \<open>tmp = a; a = b; b = tmp\<close>.
\<close>

type_synonym 'a store = "addr \<rightharpoonup> 'a Set"

definition get_root :: "'a store \<Rightarrow> addr \<Rightarrow> 'a tree option" where
  "get_root st p = map_option tree_root (st p)"

definition put_root :: "'a store \<Rightarrow> addr \<Rightarrow> 'a tree \<Rightarrow> 'a store option" where
  "put_root st p t = (case st p of None \<Rightarrow> None | Some S \<Rightarrow> Some (st(p \<mapsto> S\<lparr>tree_root := t\<rparr>)))"

definition get_size :: "'a store \<Rightarrow> addr \<Rightarrow> size_t option" where
  "get_size st p = map_option set_size (st p)"

definition put_size :: "'a store \<Rightarrow> addr \<Rightarrow> size_t \<Rightarrow> 'a store option" where
  "put_size st p n = (case st p of None \<Rightarrow> None | Some S \<Rightarrow> Some (st(p \<mapsto> S\<lparr>set_size := n\<rparr>)))"

definition swap_roots :: "'a store \<Rightarrow> addr \<Rightarrow> addr \<Rightarrow> 'a store option" where
  "swap_roots st p q =
     do {
       tmp \<leftarrow> get_root st p;
       b \<leftarrow> get_root st q;
       st1 \<leftarrow> put_root st p b;
       put_root st1 q tmp
     }"

text \<open>\<open>Set& operator=(Set&& s)\<close>.\<close>

definition Set_move_assign :: "'a store \<Rightarrow> addr \<Rightarrow> addr \<Rightarrow> 'a store option" where
  "Set_move_assign st this s =
     do {
       st1 \<leftarrow> swap_roots st this s;
       n \<leftarrow> get_size st1 s;
       put_size st1 this n
     }"

text \<open>\<open>Set(Set&& s)\<close>: the new object at \<open>this\<close> starts from its default member
  initialisers.\<close>

definition Set_move_construct :: "'a store \<Rightarrow> addr \<Rightarrow> addr \<Rightarrow> 'a store option" where
  "Set_move_construct st this s =
     do {
       st1 \<leftarrow> swap_roots (st(this \<mapsto> Set_default)) s this;
       n \<leftarrow> get_size st1 s;
       put_size st1 this n
     }"

section \<open>Nodes with parent links\<close>

text \<open>
  A heap maps an address to the fields of the \<open>Node\<close> stored there. \<open>Next\<close> and
  \<open>Prev\<close> walk \<open>parent\<close> pointers, so they are given on the heap only. A result
  of type \<open>addr option option\<close> is \<open>None\<close> for a fault or a walk that never ends,
  \<open>Some None\<close> for \<open>nullptr\<close>, and \<open>Some (Some a)\<close> for the node at \<open>a\<close>.
\<close>

record 'a node =
  val :: 'a
  level :: size_t
  parent :: "addr option"
  left_son :: "addr option"
  right_son :: "addr option"

type_synonym 'a heap = "addr \<rightharpoonup> 'a node"

partial_function (option) leftmost_loop :: "'a heap \<Rightarrow> addr \<Rightarrow> addr option" where
  "leftmost_loop h v =
     (case h v of
        None \<Rightarrow> None
      | Some n \<Rightarrow> (case left_son n of None \<Rightarrow> Some v | Some l \<Rightarrow> leftmost_loop h l))"

partial_function (option) rightmost_loop :: "'a heap \<Rightarrow> addr \<Rightarrow> addr option" where
  "rightmost_loop h v =
     (case h v of
        None \<Rightarrow> None
      | Some n \<Rightarrow> (case right_son n of None \<Rightarrow> Some v | Some r \<Rightarrow> rightmost_loop h r))"

declare leftmost_loop.simps [code]
declare rightmost_loop.simps [code]

definition Successor_h :: "'a heap \<Rightarrow> addr \<Rightarrow> addr option" where
  "Successor_h h v =
     (case h v of
        None \<Rightarrow> None
      | Some n \<Rightarrow> (case right_son n of None \<Rightarrow> None | Some r \<Rightarrow> leftmost_loop h r))"

definition Predecessor_h :: "'a heap \<Rightarrow> addr \<Rightarrow> addr option" where
  "Predecessor_h h v =
     (case h v of
        None \<Rightarrow> None
      | Some n \<Rightarrow> (case left_son n of None \<Rightarrow> None | Some l \<Rightarrow> rightmost_loop h l))"

text \<open>The \<open>while\<close> loops of \<open>Next\<close> and \<open>Prev\<close> with the \<open>return vertex->parent\<close>
  that follows them.\<close>

partial_function (option) Next_climb :: "'a heap \<Rightarrow> addr \<Rightarrow> addr option option" where
  "Next_climb h v =
     (case h v of
        None \<Rightarrow> None
      | Some n \<Rightarrow>
          (case parent n of
             None \<Rightarrow> Some None
           | Some p \<Rightarrow>
               (case h p of
                  None \<Rightarrow> None
                | Some pn \<Rightarrow> if left_son pn \<noteq> Some v then Next_climb h p else Some (Some p))))"

partial_function (option) Prev_climb :: "'a heap \<Rightarrow> addr \<Rightarrow> addr option option" where
  "Prev_climb h v =
     (case h v of
        None \<Rightarrow> None
      | Some n \<Rightarrow>
          (case parent n of
             None \<Rightarrow> Some None
           | Some p \<Rightarrow>
               (case h p of
                  None \<Rightarrow> None
                | Some pn \<Rightarrow> if right_son pn \<noteq> Some v then Prev_climb h p else Some (Some p))))"

declare Next_climb.simps [code]
declare Prev_climb.simps [code]

definition Next :: "'a heap \<Rightarrow> addr \<Rightarrow> addr option option" where
  "Next h v =
     (case h v of
        None \<Rightarrow> None
      | Some n \<Rightarrow>
          if right_son n \<noteq> None then map_option Some (Successor_h h v)
          else Next_climb h v)"

definition Prev :: "'a heap \<Rightarrow> addr \<Rightarrow> addr option option" where
  "Prev h v =
     (case h v of
        None \<Rightarrow> None
      | Some n \<Rightarrow>
          if left_son n \<noteq> None then map_option Some (Predecessor_h h v)
          else Prev_climb h v)"

text \<open>
  \<open>iterator::operator++()\<close> and \<open>iterator::operator--()\<close>. \<open>S\<close> is the object that
  \<open>iterator_owner\<close> points to; only the decrement of the end iterator reads it.
\<close>

definition it_incr :: "'a heap \<Rightarrow> iterator \<Rightarrow> iterator option" where
  "it_incr h it =
     (case current_vertex it of
        None \<Rightarrow> None
      | Some v \<Rightarrow> do { n \<leftarrow> Next h v; Some (it\<lparr>current_vertex := n\<rparr>) })"

definition it_decr :: "'a heap \<Rightarrow> 'a Set \<Rightarrow> iterator \<Rightarrow> iterator option" where
  "it_decr h S it =
     (case current_vertex it of
        None \<Rightarrow>
          (case ptr (tree_root S) of
             None \<Rightarrow> None
           | Some root \<Rightarrow> do { m \<leftarrow> rightmost_loop h root; Some (it\<lparr>current_vertex := Some m\<rparr>) })
      | Some v \<Rightarrow> do { n \<leftarrow> Prev h v; Some (it\<lparr>current_vertex := n\<rparr>) })"

subsection \<open>The mutating operations on the nodes\<close>

text \<open>
  \<open>Skew\<close>, \<open>Split\<close>, \<open>Insert\<close>, \<open>DecreaseLevel\<close> and \<open>Erase\<close> on the nodes in the
  heap, with every assignment to \<open>parent\<close>, \<open>left_son\<close>, \<open>right_son\<close>, \<open>level\<close> and
  \<open>value\<close> in the order of the source. A function that returns a \<open>Node*\<close> returns
  the new heap with the pointer. \<open>upd h a f\<close> is an assignment through the pointer
  \<open>a\<close>; it faults when nothing is allocated there.
\<close>

definition upd :: "'a heap \<Rightarrow> addr \<Rightarrow> ('a node \<Rightarrow> 'a node) \<Rightarrow> 'a heap option" where
  "upd h a f = (case h a of None \<Rightarrow> None | Some n \<Rightarrow> Some (h(a \<mapsto> f n)))"

definition Skew_h :: "'a heap \<Rightarrow> addr \<Rightarrow> ('a heap \<times> addr) option" where
  "Skew_h h vertex =
     do {
       n \<leftarrow> h vertex;
       case left_son n of
         None \<Rightarrow> Some (h, vertex)
       | Some s \<Rightarrow>
           do {
             sn \<leftarrow> h s;
             if level sn \<noteq> level n then Some (h, vertex)
             else do {
               h1 \<leftarrow> upd h vertex (\<lambda>c. c\<lparr>left_son := right_son sn\<rparr>);
               sn1 \<leftarrow> h1 s;
               h2 \<leftarrow> (case right_son sn1 of
                        None \<Rightarrow> Some h1
                      | Some sr \<Rightarrow> upd h1 sr (\<lambda>c. c\<lparr>parent := Some vertex\<rparr>));
               h3 \<leftarrow> upd h2 s (\<lambda>c. c\<lparr>right_son := Some vertex\<rparr>);
               vn \<leftarrow> h3 vertex;
               h4 \<leftarrow> upd h3 s (\<lambda>c. c\<lparr>parent := parent vn\<rparr>);
               h5 \<leftarrow> upd h4 vertex (\<lambda>c. c\<lparr>parent := Some s\<rparr>);
               Some (h5, s)
             }
           }
     }"

definition Split_h :: "'a heap \<Rightarrow> addr \<Rightarrow> ('a heap \<times> addr) option" where
  "Split_h h vertex =
     do {
       n \<leftarrow> h vertex;
       case right_son n of
         None \<Rightarrow> Some (h, vertex)
       | Some s \<Rightarrow>
           do {
             sn \<leftarrow> h s;
             case right_son sn of
               None \<Rightarrow> Some (h, vertex)
             | Some rr \<Rightarrow>
                 do {
                   rrn \<leftarrow> h rr;
                   if level n \<noteq> level rrn then Some (h, vertex)
                   else do {
                     h1 \<leftarrow> upd h vertex (\<lambda>c. c\<lparr>right_son := left_son sn\<rparr>);
                     sn1 \<leftarrow> h1 s;
                     h2 \<leftarrow> (case left_son sn1 of
                              None \<Rightarrow> Some h1
                            | Some sl \<Rightarrow> upd h1 sl (\<lambda>c. c\<lparr>parent := Some vertex\<rparr>));
                     h3 \<leftarrow> upd h2 s (\<lambda>c. c\<lparr>left_son := Some vertex\<rparr>);
                     vn \<leftarrow> h3 vertex;
                     h4 \<leftarrow> upd h3 s (\<lambda>c. c\<lparr>parent := parent vn\<rparr>);
                     h5 \<leftarrow> upd h4 vertex (\<lambda>c. c\<lparr>parent := Some s\<rparr>);
                     h6 \<leftarrow> upd h5 s (\<lambda>c. c\<lparr>level := level c + 1\<rparr>);
                     Some (h6, s)
                   }
                 }
           }
     }"

text \<open>
  \<open>Insert\<close>: \<open>new Node(value)\<close> yields the address \<open>fresh\<close>, which must not be in use.
  Every \<open>return\<close> of \<open>Insert\<close> returns a pointer that is not null, so the result
  carries an address.
\<close>

partial_function (option) Insert_h ::
    "'a::linorder heap \<Rightarrow> addr option \<Rightarrow> 'a \<Rightarrow> addr \<Rightarrow> size_t
      \<Rightarrow> ('a heap \<times> addr \<times> addr \<times> size_t) option" where
  "Insert_h h t v fresh sz =
     (case t of
        None \<Rightarrow>
          if h fresh \<noteq> None then None
          else Some (h(fresh \<mapsto> \<lparr>val = v, level = BASIC_LEVEL, parent = None,
                                left_son = None, right_son = None\<rparr>),
                     fresh, fresh, sz + 1)
      | Some a \<Rightarrow>
          do {
            n \<leftarrow> h a;
            if v < val n then
              do {
                (h1, l', ins, sz') \<leftarrow> Insert_h h (left_son n) v fresh sz;
                h2 \<leftarrow> upd h1 a (\<lambda>c. c\<lparr>left_son := Some l'\<rparr>);
                h3 \<leftarrow> upd h2 l' (\<lambda>c. c\<lparr>parent := Some a\<rparr>);
                (h4, t1) \<leftarrow> Skew_h h3 a;
                (h5, t2) \<leftarrow> Split_h h4 t1;
                Some (h5, t2, ins, sz')
              }
            else if val n < v then
              do {
                (h1, r', ins, sz') \<leftarrow> Insert_h h (right_son n) v fresh sz;
                h2 \<leftarrow> upd h1 a (\<lambda>c. c\<lparr>right_son := Some r'\<rparr>);
                h3 \<leftarrow> upd h2 r' (\<lambda>c. c\<lparr>parent := Some a\<rparr>);
                (h4, t1) \<leftarrow> Skew_h h3 a;
                (h5, t2) \<leftarrow> Split_h h4 t1;
                Some (h5, t2, ins, sz')
              }
            else Some (h, a, a, sz)
          })"

declare Insert_h.simps [code]

definition expected_level_h :: "'a heap \<Rightarrow> 'a node \<Rightarrow> size_t option" where
  "expected_level_h h n =
     (case left_son n of
        None \<Rightarrow> Some 1
      | Some l \<Rightarrow>
          (case right_son n of
             None \<Rightarrow> Some 1
           | Some r \<Rightarrow> do { ln \<leftarrow> h l; rn \<leftarrow> h r; Some (min (level ln) (level rn) + 1) }))"

definition DecreaseLevel_h :: "'a heap \<Rightarrow> addr \<Rightarrow> ('a heap \<times> addr) option" where
  "DecreaseLevel_h h vertex =
     do {
       n \<leftarrow> h vertex;
       expected_level \<leftarrow> expected_level_h h n;
       if level n > expected_level then
         do {
           h1 \<leftarrow> upd h vertex (\<lambda>c. c\<lparr>level := expected_level\<rparr>);
           n1 \<leftarrow> h1 vertex;
           case right_son n1 of
             None \<Rightarrow> Some (h1, vertex)
           | Some r \<Rightarrow>
               do {
                 rn \<leftarrow> h1 r;
                 if level rn > expected_level then
                   do { h2 \<leftarrow> upd h1 r (\<lambda>c. c\<lparr>level := expected_level\<rparr>); Some (h2, vertex) }
                 else Some (h1, vertex)
               }
         }
       else Some (h, vertex)
     }"

definition on_right_son_h ::
    "('a heap \<Rightarrow> addr \<Rightarrow> ('a heap \<times> addr) option) \<Rightarrow> 'a heap \<Rightarrow> addr \<Rightarrow> ('a heap \<times> addr) option" where
  "on_right_son_h f h vertex =
     do {
       n \<leftarrow> h vertex;
       case right_son n of
         None \<Rightarrow> Some (h, vertex)
       | Some r \<Rightarrow>
           do {
             (h1, r') \<leftarrow> f h r;
             h2 \<leftarrow> upd h1 vertex (\<lambda>c. c\<lparr>right_son := Some r'\<rparr>);
             Some (h2, vertex)
           }
     }"

text \<open>
  The two \<open>Skew\<close> steps of \<open>Erase\<close>: the right son, and after that assignment the
  right son of the right son.
\<close>

definition Erase_skews_h :: "'a heap \<Rightarrow> addr \<Rightarrow> ('a heap \<times> addr) option" where
  "Erase_skews_h h vertex =
     do {
       n \<leftarrow> h vertex;
       case right_son n of
         None \<Rightarrow> Some (h, vertex)
       | Some r \<Rightarrow>
           do {
             (h1, r') \<leftarrow> Skew_h h r;
             h2 \<leftarrow> upd h1 vertex (\<lambda>c. c\<lparr>right_son := Some r'\<rparr>);
             n2 \<leftarrow> h2 vertex;
             case right_son n2 of
               None \<Rightarrow> None
             | Some r2 \<Rightarrow>
                 do {
                   (h3, r3) \<leftarrow> on_right_son_h Skew_h h2 r2;
                   Some (h3, vertex)
                 }
           }
     }"

definition Erase_rebalance_h :: "'a heap \<Rightarrow> addr \<Rightarrow> ('a heap \<times> addr) option" where
  "Erase_rebalance_h h vertex =
     do {
       (h1, v1) \<leftarrow> Erase_skews_h h vertex;
       (h2, v2) \<leftarrow> Split_h h1 v1;
       on_right_son_h Split_h h2 v2
     }"

definition Erase_finish_h :: "'a heap \<Rightarrow> addr \<Rightarrow> ('a heap \<times> addr) option" where
  "Erase_finish_h h vertex = do { (h1, v1) \<leftarrow> DecreaseLevel_h h vertex; Erase_rebalance_h h1 v1 }"

text \<open>
  \<open>Erase\<close>: \<open>delete vertex\<close> removes the node from the heap. The source passes
  \<open>s->value\<close> by reference to the recursive call; every frame reads its \<open>value\<close>
  argument only before it recurses or overwrites, so the model passes the value.
\<close>

partial_function (option) Erase_h ::
    "'a::linorder heap \<Rightarrow> addr option \<Rightarrow> 'a \<Rightarrow> size_t
      \<Rightarrow> ('a heap \<times> addr option \<times> size_t) option" where
  "Erase_h h vertex v sz =
     (case vertex of
        None \<Rightarrow> Some (h, None, sz)
      | Some a \<Rightarrow>
          do {
            n \<leftarrow> h a;
            if v < val n then
              do {
                (h1, l', sz') \<leftarrow> Erase_h h (left_son n) v sz;
                h2 \<leftarrow> upd h1 a (\<lambda>c. c\<lparr>left_son := l'\<rparr>);
                (h3, a') \<leftarrow> Erase_finish_h h2 a;
                Some (h3, Some a', sz')
              }
            else if val n < v then
              do {
                (h1, r', sz') \<leftarrow> Erase_h h (right_son n) v sz;
                h2 \<leftarrow> upd h1 a (\<lambda>c. c\<lparr>right_son := r'\<rparr>);
                (h3, a') \<leftarrow> Erase_finish_h h2 a;
                Some (h3, Some a', sz')
              }
            else if left_son n = None \<and> right_son n = None then
              Some (h(a := None), None, sz - 1)
            else if left_son n = None then
              do {
                s \<leftarrow> Successor_h h a;
                sn \<leftarrow> h s;
                h0 \<leftarrow> upd h a (\<lambda>c. c\<lparr>val := val sn\<rparr>);
                n0 \<leftarrow> h0 a;
                s0 \<leftarrow> h0 s;
                (h1, r', sz') \<leftarrow> Erase_h h0 (right_son n0) (val s0) sz;
                h2 \<leftarrow> upd h1 a (\<lambda>c. c\<lparr>right_son := r'\<rparr>);
                (h3, a') \<leftarrow> Erase_finish_h h2 a;
                Some (h3, Some a', sz')
              }
            else
              do {
                s \<leftarrow> Predecessor_h h a;
                sn \<leftarrow> h s;
                h0 \<leftarrow> upd h a (\<lambda>c. c\<lparr>val := val sn\<rparr>);
                n0 \<leftarrow> h0 a;
                s0 \<leftarrow> h0 s;
                (h1, l', sz') \<leftarrow> Erase_h h0 (left_son n0) (val s0) sz;
                h2 \<leftarrow> upd h1 a (\<lambda>c. c\<lparr>left_son := l'\<rparr>);
                (h3, a') \<leftarrow> Erase_finish_h h2 a;
                Some (h3, Some a', sz')
              }
          })"

declare Erase_h.simps [code]

text \<open>
  The least heap that holds a given tree: every node at its address, its sons'
  addresses in \<open>left_son\<close> and \<open>right_son\<close>, and \<open>parent\<close> the address of the node
  above it (\<open>nullptr\<close> at the root).
\<close>

fun cells :: "'a tree \<Rightarrow> addr option \<Rightarrow> (addr \<times> 'a node) list" where
  "cells Null p = []"
| "cells (Node l a x lv r) p =
     (a, \<lparr>val = x, level = lv, parent = p, left_son = ptr l, right_son = ptr r\<rparr>)
       # cells l (Some a) @ cells r (Some a)"

definition heap_of :: "'a tree \<Rightarrow> 'a heap" where
  "heap_of t = map_of (cells t None)"

subsection \<open>Client programs\<close>

text \<open>
  A finite sequence of \<open>insert\<close> and \<open>erase\<close> calls on one set. An insertion carries
  the address the allocator hands out if the call creates a node.
\<close>

datatype 'a op = Op_insert 'a addr | Op_erase 'a

fun run_ops :: "'a::linorder Set \<Rightarrow> 'a op list \<Rightarrow> 'a Set option" where
  "run_ops S [] = Some S"
| "run_ops S (Op_insert v fresh # ops) =
     do { (res, S') \<leftarrow> Set_insert 0 S v fresh; run_ops S' ops }"
| "run_ops S (Op_erase v # ops) =
     do { (res, S') \<leftarrow> Set_erase S v; run_ops S' ops }"

text \<open>The insertions of a client program allocate at addresses that are not in use.\<close>

fun fresh_addrs :: "'a op list \<Rightarrow> addr list" where
  "fresh_addrs [] = []"
| "fresh_addrs (Op_insert v fresh # ops) = fresh # fresh_addrs ops"
| "fresh_addrs (Op_erase v # ops) = fresh_addrs ops"

text \<open>The same program on the nodes: the heap, \<open>tree_root_\<close> and \<open>set_size_\<close>.\<close>

record 'a Set_h =
  h_nodes :: "'a heap"
  h_root :: "addr option"
  h_size :: size_t

definition Set_h_default :: "'a Set_h" where
  "Set_h_default = \<lparr>h_nodes = Map.empty, h_root = None, h_size = EMPTY_SIZE\<rparr>"

fun run_ops_h :: "'a::linorder Set_h \<Rightarrow> 'a op list \<Rightarrow> 'a Set_h option" where
  "run_ops_h S [] = Some S"
| "run_ops_h S (Op_insert v fresh # ops) =
     do {
       (h, root, ins, sz) \<leftarrow> Insert_h (h_nodes S) (h_root S) v fresh (h_size S);
       run_ops_h \<lparr>h_nodes = h, h_root = Some root, h_size = sz\<rparr> ops
     }"
| "run_ops_h S (Op_erase v # ops) =
     do {
       (h, root, sz) \<leftarrow> Erase_h (h_nodes S) (h_root S) v (h_size S);
       run_ops_h \<lparr>h_nodes = h, h_root = root, h_size = sz\<rparr> ops
     }"

section \<open>What is specified of the tree\<close>

text \<open>The in-order traversal: the nodes as (address, value) pairs, and their values.\<close>

fun entries :: "'a tree \<Rightarrow> (addr \<times> 'a) list" where
  "entries Null = []"
| "entries (Node l a x lv r) = entries l @ (a, x) # entries r"

definition inorder :: "'a tree \<Rightarrow> 'a list" where
  "inorder t = map snd (entries t)"

definition addrs :: "'a tree \<Rightarrow> addr list" where
  "addrs t = map fst (entries t)"

text \<open>Binary-search-tree ordering: the traversal is strictly increasing.\<close>

definition bst :: "'a::linorder tree \<Rightarrow> bool" where
  "bst t = sorted_wrt (<) (inorder t)"

text \<open>
  The AA-tree level invariant as the specification words it: a null child has level 0;
  a node's level is one more than its left child's; the right child's level is the
  node's or one less; the right-right grandchild's level is less than the node's.
\<close>

fun right_of :: "'a tree \<Rightarrow> 'a tree" where
  "right_of Null = Null"
| "right_of (Node l a x lv r) = r"

fun aa_inv :: "'a tree \<Rightarrow> bool" where
  "aa_inv Null = True"
| "aa_inv (Node l a x lv r) =
     (lv = lvl l + 1 \<and> (lvl r = lv \<or> lvl r + 1 = lv) \<and> lvl (right_of r) < lv
      \<and> aa_inv l \<and> aa_inv r)"

text \<open>
  The rebalancing of \<open>Erase\<close> as the specification words it: \<open>Skew\<close> on the node
  itself first, then the steps of \<open>Erase_rebalance\<close>.
\<close>

definition Erase_rebalance_as_specified :: "'a tree \<Rightarrow> 'a tree option" where
  "Erase_rebalance_as_specified vertex = do { v \<leftarrow> Skew vertex; Erase_rebalance v }"

text \<open>The object at address \<open>p\<close> after a store operation.\<close>

definition obj_after :: "'a store option \<Rightarrow> addr \<Rightarrow> 'a Set option" where
  "obj_after res p = (case res of None \<Rightarrow> None | Some st \<Rightarrow> st p)"

text \<open>A step that returns, on every node, a node with the same traversal.\<close>

definition keeps :: "('a tree \<Rightarrow> 'a tree option) \<Rightarrow> bool" where
  "keeps f = (\<forall>t. t \<noteq> Null \<longrightarrow> (\<exists>t'. f t = Some t' \<and> t' \<noteq> Null \<and> entries t' = entries t))"

text \<open>
  A heap holds a tree below a parent pointer \<open>p\<close>: every node of the tree is in the
  heap with its fields, sons and parent as the tree has them.
\<close>

fun repr :: "'a heap \<Rightarrow> addr option \<Rightarrow> 'a tree \<Rightarrow> bool" where
  "repr h p Null = True"
| "repr h p (Node l a x lv r) =
     (h a = Some \<lparr>val = x, level = lv, parent = p, left_son = ptr l, right_son = ptr r\<rparr>
      \<and> repr h (Some a) l \<and> repr h (Some a) r)"

text \<open>
  A step on the heap refines a step on trees: on a heap that holds a tree, both
  return, the new heap holds the new tree below the same parent, the traversal is
  the same, and the heap is unchanged outside the tree.
\<close>

definition refines ::
    "('a heap \<Rightarrow> addr \<Rightarrow> ('a heap \<times> addr) option) \<Rightarrow> ('a tree \<Rightarrow> 'a tree option) \<Rightarrow> bool" where
  "refines fh f =
     (\<forall>h p t a. repr h p t \<longrightarrow> distinct (addrs t) \<longrightarrow> ptr t = Some a \<longrightarrow>
        (\<exists>h' a' t'. f t = Some t' \<and> fh h a = Some (h', a') \<and> ptr t' = Some a'
           \<and> repr h' p t' \<and> entries t' = entries t
           \<and> (\<forall>b. b \<notin> set (addrs t) \<longrightarrow> h' b = h b)))"

section \<open>Results\<close>

lemmas eval_defs =
  Set_insert_def Set_erase_def Set_default_def BASIC_LEVEL_def EMPTY_SIZE_def
  Erase_rebalance_def Let_def

lemmas store_defs =
  Set_move_assign_def Set_move_construct_def swap_roots_def get_root_def put_root_def
  get_size_def put_size_def

subsection \<open>Traversals, rotations and the recursive algorithms\<close>

lemma inorder_simps [simp]:
  "inorder Null = []"
  "inorder (Node l a x lv r) = inorder l @ x # inorder r"
  by (simp_all add: inorder_def)

lemma addrs_simps [simp]:
  "addrs Null = []"
  "addrs (Node l a x lv r) = addrs l @ a # addrs r"
  by (simp_all add: addrs_def)

lemma bst_Null [simp]: "bst Null"
  by (simp add: bst_def)

lemma bst_Node:
  "bst (Node l a x lv r) \<longleftrightarrow>
     bst l \<and> bst r \<and> (\<forall>y\<in>set (inorder l). y < x) \<and> (\<forall>z\<in>set (inorder r). x < z)"
  unfolding bst_def inorder_simps sorted_wrt_append
  by (auto intro: less_trans)

lemma entries_Nil_iff [simp]: "entries t = [] \<longleftrightarrow> t = Null"
  by (cases t) simp_all

lemma inorder_Nil_iff [simp]: "inorder t = [] \<longleftrightarrow> t = Null"
  by (simp add: inorder_def)

lemma keepsD:
  assumes "keeps f" "t \<noteq> Null"
  obtains t' where "f t = Some t'" "t' \<noteq> Null" "entries t' = entries t"
  using assms unfolding keeps_def by blast

lemma keeps_Skew: "keeps Skew"
  unfolding keeps_def
proof (intro allI impI)
  fix t :: "'a tree" assume "t \<noteq> Null"
  then show "\<exists>t'. Skew t = Some t' \<and> t' \<noteq> Null \<and> entries t' = entries t"
    by (cases t) (auto split: tree.splits)
qed

lemma keeps_Split: "keeps Split"
  unfolding keeps_def
proof (intro allI impI)
  fix t :: "'a tree" assume "t \<noteq> Null"
  then show "\<exists>t'. Split t = Some t' \<and> t' \<noteq> Null \<and> entries t' = entries t"
    by (cases t) (auto split: tree.splits)
qed

lemma entries_set_level [simp]: "entries (set_level s n) = entries s"
  by (cases s) simp_all

lemma keeps_DecreaseLevel: "keeps DecreaseLevel"
  unfolding keeps_def
proof (intro allI impI)
  fix t :: "'a tree" assume "t \<noteq> Null"
  then show "\<exists>t'. DecreaseLevel t = Some t' \<and> t' \<noteq> Null \<and> entries t' = entries t"
    by (cases t) (simp_all add: Let_def)
qed

lemma keeps_bind:
  assumes "keeps f" "keeps g"
  shows "keeps (\<lambda>t. f t \<bind> g)"
  unfolding keeps_def
proof (intro allI impI)
  fix t :: "'a tree" assume "t \<noteq> Null"
  with assms(1) obtain t1 where 1: "f t = Some t1" "t1 \<noteq> Null" "entries t1 = entries t"
    by (rule keepsD)
  from assms(2) 1(2) obtain t2 where 2: "g t1 = Some t2" "t2 \<noteq> Null" "entries t2 = entries t1"
    by (rule keepsD)
  show "\<exists>t'. f t \<bind> g = Some t' \<and> t' \<noteq> Null \<and> entries t' = entries t"
    using 1 2 by simp
qed

lemma keeps_on_right_son:
  assumes "keeps f"
  shows "keeps (on_right_son f)"
  unfolding keeps_def
proof (intro allI impI)
  fix t :: "'a tree" assume "t \<noteq> Null"
  then obtain l a x lv r where t: "t = Node l a x lv r" by (cases t) auto
  show "\<exists>t'. on_right_son f t = Some t' \<and> t' \<noteq> Null \<and> entries t' = entries t"
  proof (cases "r = Null")
    case True with t show ?thesis by simp
  next
    case False
    with assms obtain r' where "f r = Some r'" "entries r' = entries r"
      by (rule keepsD)
    with False t show ?thesis by simp
  qed
qed

lemma keeps_Erase_rebalance: "keeps Erase_rebalance"
proof -
  have eq: "Erase_rebalance =
      (\<lambda>t::'a tree. on_right_son (\<lambda>r. Skew r \<bind> on_right_son Skew) t \<bind>
           (\<lambda>v1. Split v1 \<bind> on_right_son Split))"
    by (rule ext) (simp add: Erase_rebalance_def)
  show ?thesis
    unfolding eq by (intro keeps_bind keeps_on_right_son keeps_Skew keeps_Split)
qed

lemma keeps_Erase_fixup: "keeps (\<lambda>t. DecreaseLevel t \<bind> Erase_rebalance)"
  by (intro keeps_bind keeps_DecreaseLevel keeps_Erase_rebalance)

lemma keeps_Insert_fixup: "keeps (\<lambda>t. Skew t \<bind> Split)"
  by (intro keeps_bind keeps_Skew keeps_Split)

lemma inorder_eq_if_entries: "entries t' = entries t \<Longrightarrow> inorder t' = inorder t"
  by (simp add: inorder_def)

lemma set_inorder: "set (inorder t) = snd ` set (entries t)"
  by (simp add: inorder_def)

lemma Insert_fixup_Some:
  "\<exists>t1 t'. Skew (Node l a x lv r) = Some t1 \<and> Split t1 = Some t' \<and> t' \<noteq> Null
        \<and> entries t' = entries l @ (a, x) # entries r"
proof -
  obtain t1 where 1: "Skew (Node l a x lv r) = Some t1" "t1 \<noteq> Null"
      "entries t1 = entries (Node l a x lv r)"
    by (rule keepsD[OF keeps_Skew, of "Node l a x lv r"]) simp
  obtain t' where 2: "Split t1 = Some t'" "t' \<noteq> Null" "entries t' = entries t1"
    by (rule keepsD[OF keeps_Split 1(2)])
  from 1 2 show ?thesis by (intro exI[of _ t1] exI[of _ t']) simp
qed

lemma Insert_present:
  assumes "bst t" "v \<in> set (inorder t)"
  shows "\<exists>t' ins. Insert t v fresh sz = Some (t', ins, sz) \<and> t' \<noteq> Null
           \<and> entries t' = entries t \<and> (ins, v) \<in> set (entries t)"
  using assms
proof (induction t)
  case Null
  then show ?case by simp
next
  case (Node l a x lv r)
  from Node.prems(1) have b: "bst l" "bst r" "\<forall>y\<in>set (inorder l). y < x"
      "\<forall>z\<in>set (inorder r). x < z"
    by (simp_all add: bst_Node)
  consider (lt) "v < x" | (gt) "x < v" | (eq) "v = x" by (rule linorder_cases)
  then show ?case
  proof cases
    case lt
    with b(4) Node.prems(2) have "v \<in> set (inorder l)" by auto
    with Node.IH(1) b(1) obtain l' ins where l': "Insert l v fresh sz = Some (l', ins, sz)"
        "l' \<noteq> Null" "entries l' = entries l" "(ins, v) \<in> set (entries l)"
      by blast
    obtain t1 t' where t': "Skew (Node l' a x lv r) = Some t1" "Split t1 = Some t'" "t' \<noteq> Null"
        "entries t' = entries l' @ (a, x) # entries r"
      using Insert_fixup_Some[of l' a x lv r] by blast
    from lt l'(1,2) t'(1,2) have "Insert (Node l a x lv r) v fresh sz = Some (t', ins, sz)"
      by (simp del: Skew.simps Split.simps)
    with t'(3,4) l'(3,4) show ?thesis by simp
  next
    case gt
    with b(3) Node.prems(2) have "v \<in> set (inorder r)" by auto
    with Node.IH(2) b(2) obtain r' ins where r': "Insert r v fresh sz = Some (r', ins, sz)"
        "r' \<noteq> Null" "entries r' = entries r" "(ins, v) \<in> set (entries r)"
      by blast
    obtain t1 t' where t': "Skew (Node l a x lv r') = Some t1" "Split t1 = Some t'" "t' \<noteq> Null"
        "entries t' = entries l @ (a, x) # entries r'"
      using Insert_fixup_Some[of l a x lv r'] by blast
    from gt have "\<not> v < x" by simp
    with gt r'(1,2) t'(1,2) have "Insert (Node l a x lv r) v fresh sz = Some (t', ins, sz)"
      by (simp del: Skew.simps Split.simps)
    with t'(3,4) r'(3,4) show ?thesis by simp
  next
    case eq
    then show ?thesis by simp
  qed
qed

lemma Insert_absent:
  assumes "bst t" "v \<notin> set (inorder t)"
  shows "\<exists>t' xs ys. Insert t v fresh sz = Some (t', fresh, sz + 1) \<and> t' \<noteq> Null
           \<and> entries t = xs @ ys \<and> entries t' = xs @ (fresh, v) # ys
           \<and> (\<forall>e\<in>set xs. snd e < v) \<and> (\<forall>e\<in>set ys. v < snd e)"
  using assms
proof (induction t)
  case Null
  then show ?case by simp
next
  case (Node l a x lv r)
  from Node.prems(1) have b: "bst l" "bst r" "\<forall>y\<in>set (inorder l). y < x"
      "\<forall>z\<in>set (inorder r). x < z"
    by (simp_all add: bst_Node)
  from Node.prems(2) have nin: "v \<notin> set (inorder l)" "v \<noteq> x" "v \<notin> set (inorder r)"
    by simp_all
  from nin(2) consider (lt) "v < x" | (gt) "x < v" by (metis linorder_cases)
  then show ?case
  proof cases
    case lt
    from Node.IH(1)[OF b(1) nin(1)] obtain l' xs ys where
      l': "Insert l v fresh sz = Some (l', fresh, sz + 1)" "l' \<noteq> Null"
        "entries l = xs @ ys" "entries l' = xs @ (fresh, v) # ys"
        "\<forall>e\<in>set xs. snd e < v" "\<forall>e\<in>set ys. v < snd e"
      by blast
    obtain t1 t' where t': "Skew (Node l' a x lv r) = Some t1" "Split t1 = Some t'" "t' \<noteq> Null"
        "entries t' = entries l' @ (a, x) # entries r"
      using Insert_fixup_Some[of l' a x lv r] by blast
    from lt l'(1,2) t'(1,2) have 1: "Insert (Node l a x lv r) v fresh sz = Some (t', fresh, sz + 1)"
      by (simp del: Skew.simps Split.simps)
    have 2: "entries (Node l a x lv r) = xs @ (ys @ (a, x) # entries r)"
      using l'(3) by simp
    have 3: "entries t' = xs @ (fresh, v) # (ys @ (a, x) # entries r)"
      using t'(4) l'(4) by simp
    have 4: "\<forall>e\<in>set (ys @ (a, x) # entries r). v < snd e"
      using l'(6) lt b(4) by (auto simp add: set_inorder intro: less_trans)
    from 1 2 3 4 t'(3) l'(5) show ?thesis by blast
  next
    case gt
    from Node.IH(2)[OF b(2) nin(3)] obtain r' xs ys where
      r': "Insert r v fresh sz = Some (r', fresh, sz + 1)" "r' \<noteq> Null"
        "entries r = xs @ ys" "entries r' = xs @ (fresh, v) # ys"
        "\<forall>e\<in>set xs. snd e < v" "\<forall>e\<in>set ys. v < snd e"
      by blast
    obtain t1 t' where t': "Skew (Node l a x lv r') = Some t1" "Split t1 = Some t'" "t' \<noteq> Null"
        "entries t' = entries l @ (a, x) # entries r'"
      using Insert_fixup_Some[of l a x lv r'] by blast
    from gt have "\<not> v < x" by simp
    with gt r'(1,2) t'(1,2) have 1: "Insert (Node l a x lv r) v fresh sz = Some (t', fresh, sz + 1)"
      by (simp del: Skew.simps Split.simps)
    have 2: "entries (Node l a x lv r) = (entries l @ (a, x) # xs) @ ys"
      using r'(3) by simp
    have 3: "entries t' = (entries l @ (a, x) # xs) @ (fresh, v) # ys"
      using t'(4) r'(4) by simp
    have 4: "\<forall>e\<in>set (entries l @ (a, x) # xs). snd e < v"
      using r'(5) gt b(3) by (auto simp add: set_inorder intro: less_trans)
    from 1 2 3 4 t'(3) r'(6) show ?thesis by blast
  qed
qed

lemma Erase_fixup_Some:
  "\<exists>t1 t'. DecreaseLevel (Node l a x lv r) = Some t1 \<and> Erase_rebalance t1 = Some t'
        \<and> t' \<noteq> Null \<and> entries t' = entries l @ (a, x) # entries r"
proof -
  obtain t1 where 1: "DecreaseLevel (Node l a x lv r) = Some t1" "t1 \<noteq> Null"
      "entries t1 = entries (Node l a x lv r)"
    by (rule keepsD[OF keeps_DecreaseLevel, of "Node l a x lv r"]) simp
  obtain t' where 2: "Erase_rebalance t1 = Some t'" "t' \<noteq> Null" "entries t' = entries t1"
    by (rule keepsD[OF keeps_Erase_rebalance 1(2)])
  from 1 2 show ?thesis by (intro exI[of _ t1] exI[of _ t']) simp
qed

lemma leftmost_value:
  "t \<noteq> Null \<Longrightarrow> \<exists>s. leftmost t = Some s \<and> value_of s = Some (hd (inorder t))"
  by (induction t) auto

lemma rightmost_value:
  "t \<noteq> Null \<Longrightarrow> \<exists>s. rightmost t = Some s \<and> value_of s = Some (last (inorder t))"
  by (induction t) auto

lemma bst_distinct: "bst t \<Longrightarrow> distinct (inorder t)"
  by (simp add: bst_def strict_sorted_iff)

lemma remove1_last:
  "distinct xs \<Longrightarrow> xs \<noteq> [] \<Longrightarrow> remove1 (last xs) xs = butlast xs"
  by (induction xs) auto

lemma Erase_inorder:
  assumes "bst t"
  shows "\<exists>t'. Erase t v sz = Some (t', if v \<in> set (inorder t) then sz - 1 else sz)
           \<and> inorder t' = remove1 v (inorder t)"
  using assms
proof (induction t arbitrary: v)
  case Null
  then show ?case by simp
next
  case (Node l a x lv r)
  from Node.prems have b: "bst l" "bst r" "\<forall>y\<in>set (inorder l). y < x"
      "\<forall>z\<in>set (inorder r). x < z"
    by (simp_all add: bst_Node)
  let ?t = "Node l a x lv r"
  consider (lt) "v < x" | (gt) "x < v" | (leaf) "v = x" "l = Null" "r = Null"
    | (succ) "v = x" "l = Null" "r \<noteq> Null" | (pred) "v = x" "l \<noteq> Null"
    by (metis linorder_cases)
  then show ?case
  proof cases
    case lt
    with b(4) have nr: "v \<notin> set (inorder r)" "v \<noteq> x" by auto
    from Node.IH(1)[OF b(1), of v] obtain l' where
      l': "Erase l v sz = Some (l', if v \<in> set (inorder l) then sz - 1 else sz)"
        "inorder l' = remove1 v (inorder l)"
      by blast
    obtain t1 t' where t': "DecreaseLevel (Node l' a x lv r) = Some t1"
        "Erase_rebalance t1 = Some t'"
        "entries t' = entries l' @ (a, x) # entries r"
      using Erase_fixup_Some[of l' a x lv r] by blast
    from lt l'(1) t'(1,2) have
      "Erase ?t v sz = Some (t', if v \<in> set (inorder l) then sz - 1 else sz)"
      by (simp del: DecreaseLevel.simps)
    moreover have "(v \<in> set (inorder ?t)) = (v \<in> set (inorder l))"
      using nr by simp
    moreover have "inorder t' = inorder l' @ x # inorder r"
      using t'(3) by (simp add: inorder_def)
    moreover have "remove1 v (inorder ?t) = remove1 v (inorder l) @ x # inorder r"
      using nr by (simp add: remove1_append remove1_idem)
    ultimately show ?thesis using l'(2) by simp
  next
    case gt
    with b(3) have nl: "v \<notin> set (inorder l)" "v \<noteq> x" by auto
    from gt have n: "\<not> v < x" by simp
    from Node.IH(2)[OF b(2), of v] obtain r' where
      r': "Erase r v sz = Some (r', if v \<in> set (inorder r) then sz - 1 else sz)"
        "inorder r' = remove1 v (inorder r)"
      by blast
    obtain t1 t' where t': "DecreaseLevel (Node l a x lv r') = Some t1"
        "Erase_rebalance t1 = Some t'"
        "entries t' = entries l @ (a, x) # entries r'"
      using Erase_fixup_Some[of l a x lv r'] by blast
    from gt n r'(1) t'(1,2) have
      "Erase ?t v sz = Some (t', if v \<in> set (inorder r) then sz - 1 else sz)"
      by (simp del: DecreaseLevel.simps)
    moreover have "(v \<in> set (inorder ?t)) = (v \<in> set (inorder r))"
      using nl by simp
    moreover have "inorder t' = inorder l @ x # inorder r'"
      using t'(3) by (simp add: inorder_def)
    moreover have "remove1 v (inorder ?t) = inorder l @ x # remove1 v (inorder r)"
      using nl by (simp add: remove1_append)
    ultimately show ?thesis using r'(2) by simp
  next
    case leaf
    then show ?thesis by simp
  next
    case succ
    from succ(3) obtain s where s: "leftmost r = Some s" "value_of s = Some (hd (inorder r))"
      using leftmost_value by blast
    let ?sv = "hd (inorder r)"
    from succ(3) have ne: "inorder r \<noteq> []" by simp
    then have mem: "?sv \<in> set (inorder r)" by simp
    from Node.IH(2)[OF b(2), of ?sv] mem obtain r' where
      r': "Erase r ?sv sz = Some (r', sz - 1)" "inorder r' = remove1 ?sv (inorder r)"
      by auto
    obtain t1 t' where t': "DecreaseLevel (Node l a ?sv lv r') = Some t1"
        "Erase_rebalance t1 = Some t'"
        "entries t' = entries l @ (a, ?sv) # entries r'"
      using Erase_fixup_Some[of l a ?sv lv r'] by blast
    from succ s r'(1) t'(1,2) have "Erase ?t v sz = Some (t', sz - 1)"
      by (simp del: DecreaseLevel.simps)
    moreover have "inorder t' = ?sv # remove1 ?sv (inorder r)"
      using t'(3) r'(2) succ(2) by (simp add: inorder_def)
    moreover have "?sv # remove1 ?sv (inorder r) = inorder r"
      using ne by (cases "inorder r") simp_all
    ultimately show ?thesis using succ by simp
  next
    case pred
    from pred(2) obtain s where s: "rightmost l = Some s" "value_of s = Some (last (inorder l))"
      using rightmost_value by blast
    let ?sv = "last (inorder l)"
    from pred(2) have ne: "inorder l \<noteq> []" by simp
    then have mem: "?sv \<in> set (inorder l)" by simp
    from Node.IH(1)[OF b(1), of ?sv] mem obtain l' where
      l': "Erase l ?sv sz = Some (l', sz - 1)" "inorder l' = remove1 ?sv (inorder l)"
      by auto
    obtain t1 t' where t': "DecreaseLevel (Node l' a ?sv lv r) = Some t1"
        "Erase_rebalance t1 = Some t'"
        "entries t' = entries l' @ (a, ?sv) # entries r"
      using Erase_fixup_Some[of l' a ?sv lv r] by blast
    from pred s l'(1) t'(1,2) have "Erase ?t v sz = Some (t', sz - 1)"
      by (simp del: DecreaseLevel.simps)
    moreover have "inorder t' = butlast (inorder l) @ ?sv # inorder r"
      using t'(3) l'(2) ne bst_distinct[OF b(1)] by (simp add: inorder_def remove1_last)
    moreover have "butlast (inorder l) @ ?sv # inorder r = inorder l @ inorder r"
      using ne by (metis append.assoc append_Cons append_Nil append_butlast_last_id)
    moreover have "remove1 v (inorder ?t) = inorder l @ inorder r"
      using pred(1) b(3) by (auto simp add: remove1_append)
    ultimately show ?thesis using pred by simp
  qed
qed

lemma LowerBound_loop_filter:
  assumes "bst t"
  shows "LowerBound_loop t v ans =
           (case filter (\<lambda>e. v \<le> snd e) (entries t) of [] \<Rightarrow> ans | e # es \<Rightarrow> Some (fst e))"
  using assms
proof (induction t arbitrary: ans)
  case Null
  then show ?case by simp
next
  case (Node l a x lv r)
  from Node.prems have b: "bst l" "bst r" "\<forall>y\<in>set (inorder l). y < x"
      "\<forall>z\<in>set (inorder r). x < z"
    by (simp_all add: bst_Node)
  consider (lt) "v < x" | (gt) "x < v" | (eq) "v = x" by (rule linorder_cases)
  then show ?case
  proof cases
    case lt
    have "filter (\<lambda>e. v \<le> snd e) (entries (Node l a x lv r)) =
            filter (\<lambda>e. v \<le> snd e) (entries l) @ (a, x) # filter (\<lambda>e. v \<le> snd e) (entries r)"
      using lt by simp
    then show ?thesis
      using lt Node.IH(1)[OF b(1), of "Some a"] by (simp split: list.splits)
  next
    case gt
    have fl: "filter (\<lambda>e. v \<le> snd e) (entries l) = []"
      using gt b(3) by (auto simp add: filter_empty_conv set_inorder)
    from gt have n: "\<not> v < x" "\<not> v \<le> x" by auto
    show ?thesis
      using gt n fl Node.IH(2)[OF b(2), of ans] by simp
  next
    case eq
    have "filter (\<lambda>e. v \<le> snd e) (entries l) = []"
      using eq b(3) by (auto simp add: filter_empty_conv set_inorder)
    then show ?thesis using eq by simp
  qed
qed

lemma LowerBound_least:
  assumes "bst t"
  shows "(if \<exists>x\<in>set (inorder t). v \<le> x
          then \<exists>a x. LowerBound t v = Some a \<and> (a, x) \<in> set (entries t) \<and> v \<le> x
                 \<and> (\<forall>y\<in>set (inorder t). v \<le> y \<longrightarrow> x \<le> y)
          else LowerBound t v = None)"
proof (cases "filter (\<lambda>e. v \<le> snd e) (entries t)")
  case Nil
  then have "\<not> (\<exists>x\<in>set (inorder t). v \<le> x)"
    by (auto simp add: filter_empty_conv set_inorder)
  moreover have "LowerBound t v = None"
    using Nil by (simp add: LowerBound_def LowerBound_loop_filter[OF assms])
  ultimately show ?thesis by simp
next
  case (Cons e es)
  then have "e \<in> set (filter (\<lambda>e. v \<le> snd e) (entries t))" by simp
  then have e: "e \<in> set (entries t)" "v \<le> snd e" by simp_all
  have lb: "LowerBound t v = Some (fst e)"
    using Cons by (simp add: LowerBound_def LowerBound_loop_filter[OF assms])
  have "sorted_wrt (<) (map snd (filter (\<lambda>e. v \<le> snd e) (entries t)))"
    using assms unfolding bst_def inorder_def
    by (simp add: sorted_wrt_map sorted_wrt_filter)
  then have hd_least: "\<forall>e'\<in>set es. snd e < snd e'"
    unfolding Cons by simp
  have "\<forall>y\<in>set (inorder t). v \<le> y \<longrightarrow> snd e \<le> y"
  proof (intro ballI impI)
    fix y assume "y \<in> set (inorder t)" "v \<le> y"
    then obtain e' where "e' \<in> set (entries t)" "snd e' = y" "v \<le> snd e'"
      by (auto simp add: set_inorder)
    then have "e' \<in> set (e # es)" unfolding Cons[symmetric] by simp
    with hd_least \<open>snd e' = y\<close> show "snd e \<le> y" by auto
  qed
  moreover have "\<exists>x\<in>set (inorder t). v \<le> x"
    using e by (auto simp add: set_inorder)
  ultimately show ?thesis using lb e by (cases e) auto
qed

lemma Find_present:
  assumes "bst t" "v \<in> set (inorder t)"
  shows "\<exists>a. Find t v = Some a \<and> (a, v) \<in> set (entries t)"
  using assms
proof (induction t)
  case Null
  then show ?case by simp
next
  case (Node l a x lv r)
  from Node.prems(1) have b: "bst l" "bst r" "\<forall>y\<in>set (inorder l). y < x"
      "\<forall>z\<in>set (inorder r). x < z"
    by (simp_all add: bst_Node)
  consider (lt) "v < x" | (gt) "x < v" | (eq) "v = x" by (rule linorder_cases)
  then show ?case
  proof cases
    case lt
    with b(4) Node.prems(2) have "v \<in> set (inorder l)" by auto
    with Node.IH(1) b(1) lt show ?thesis by auto
  next
    case gt
    with b(3) Node.prems(2) have "v \<in> set (inorder r)" by auto
    with Node.IH(2) b(2) gt show ?thesis by auto
  next
    case eq
    then show ?thesis by simp
  qed
qed

lemma LowerBound_loop_Find:
  "Find t v = Some a \<Longrightarrow> LowerBound_loop t v ans = Some a"
  by (induction t arbitrary: ans) (auto split: if_splits)

subsection \<open>What every client program preserves\<close>

lemma addrs_eq_if_entries: "entries t' = entries t \<Longrightarrow> addrs t' = addrs t"
  by (simp add: addrs_def)

lemma Insert_bst:
  assumes "bst t"
  shows "\<exists>t' ins sz'. Insert t v fresh sz = Some (t', ins, sz') \<and> bst t'
           \<and> set (inorder t') = insert v (set (inorder t))
           \<and> (sz' = sz) = (v \<in> set (inorder t))
           \<and> (fresh \<notin> set (addrs t) \<longrightarrow> distinct (addrs t) \<longrightarrow> distinct (addrs t'))
           \<and> set (addrs t') \<subseteq> insert fresh (set (addrs t))"
proof (cases "v \<in> set (inorder t)")
  case True
  from Insert_present[OF assms True, of fresh sz] obtain t' ins where
    t': "Insert t v fresh sz = Some (t', ins, sz)" "entries t' = entries t"
    by blast
  from t'(2) have "inorder t' = inorder t" "addrs t' = addrs t"
    by (simp_all add: inorder_def addrs_def)
  with t'(1) assms True show ?thesis by (auto simp add: bst_def)
next
  case False
  from Insert_absent[OF assms False, of fresh sz] obtain t' xs ys where
    t': "Insert t v fresh sz = Some (t', fresh, sz + 1)" "entries t = xs @ ys"
      "entries t' = xs @ (fresh, v) # ys" "\<forall>e\<in>set xs. snd e < v" "\<forall>e\<in>set ys. v < snd e"
    by blast
  have io: "inorder t = map snd xs @ map snd ys" "inorder t' = map snd xs @ v # map snd ys"
    using t'(2,3) by (simp_all add: inorder_def)
  have ad: "addrs t = map fst xs @ map fst ys" "addrs t' = map fst xs @ fresh # map fst ys"
    using t'(2,3) by (simp_all add: addrs_def)
  have "bst t'"
    using assms t'(4,5) unfolding bst_def io sorted_wrt_append by auto
  moreover have "set (inorder t') = insert v (set (inorder t))"
    unfolding io by auto
  moreover have "sz + 1 \<noteq> sz" by simp
  moreover have "fresh \<notin> set (addrs t) \<longrightarrow> distinct (addrs t) \<longrightarrow> distinct (addrs t')"
    unfolding ad by auto
  moreover have "set (addrs t') \<subseteq> insert fresh (set (addrs t))"
    unfolding ad by auto
  ultimately show ?thesis using t'(1) False by simp
qed

lemma on_right_son_entries:
  assumes "\<And>r r'. f r = Some r' \<Longrightarrow> entries r' = entries r"
    and "on_right_son f t = Some t'"
  shows "entries t' = entries t"
  using assms(2) by (cases t) (auto split: if_splits bind_splits dest: assms(1))

lemma bst_remove1:
  assumes "bst t" "inorder t' = remove1 v (inorder t)"
  shows "bst t'"
proof -
  from assms(1) have "distinct (inorder t)" by (rule bst_distinct)
  then have "remove1 v (inorder t) = filter (\<lambda>x. x \<noteq> v) (inorder t)"
    by (simp add: distinct_remove1_removeAll removeAll_filter_not_eq)
       (metis (mono_tags, lifting) filter_cong)
  with assms show ?thesis by (simp add: bst_def sorted_wrt_filter)
qed

lemma Erase_fixup_entries:
  assumes "DecreaseLevel (Node l a x lv r) = Some t1" "Erase_rebalance t1 = Some t'"
  shows "entries t' = entries l @ (a, x) # entries r"
  using Erase_fixup_Some[of l a x lv r] assms by auto

lemma Erase_addrs:
  assumes "distinct (addrs t)" "Erase t v sz = Some (t', sz')"
  shows "distinct (addrs t') \<and> set (addrs t') \<subseteq> set (addrs t)"
  using assms
proof (induction t arbitrary: v t' sz')
  case Null
  then show ?case by simp
next
  case (Node l a x lv r)
  from Node.prems(1) have d: "distinct (addrs l)" "distinct (addrs r)"
      "a \<notin> set (addrs l)" "a \<notin> set (addrs r)" "set (addrs l) \<inter> set (addrs r) = {}"
    by auto
  have left: "distinct (addrs t') \<and> set (addrs t') \<subseteq> set (addrs (Node l a x lv r))"
    if "Erase l w sz = Some (l', s)" "DecreaseLevel (Node l' a y lv r) = Some t1"
       "Erase_rebalance t1 = Some t'" for w l' s y t1
  proof -
    from Node.IH(1)[OF d(1) that(1)] have "distinct (addrs l')" "set (addrs l') \<subseteq> set (addrs l)"
      by simp_all
    moreover from Erase_fixup_entries[OF that(2,3)] have "addrs t' = addrs l' @ a # addrs r"
      by (simp add: addrs_def)
    ultimately show ?thesis using d by auto
  qed
  have right: "distinct (addrs t') \<and> set (addrs t') \<subseteq> set (addrs (Node l a x lv r))"
    if "Erase r w sz = Some (r', s)" "DecreaseLevel (Node l a y lv r') = Some t1"
       "Erase_rebalance t1 = Some t'" for w r' s y t1
  proof -
    from Node.IH(2)[OF d(2) that(1)] have "distinct (addrs r')" "set (addrs r') \<subseteq> set (addrs r)"
      by simp_all
    moreover from Erase_fixup_entries[OF that(2,3)] have "addrs t' = addrs l @ a # addrs r'"
      by (simp add: addrs_def)
    ultimately show ?thesis using d by auto
  qed
  consider (lt) "v < x" | (gt) "x < v" "\<not> v < x" | (leaf) "v = x" "l = Null" "r = Null"
    | (succ) "v = x" "l = Null" "r \<noteq> Null" | (pred) "v = x" "l \<noteq> Null"
    by (metis linorder_cases less_asym)
  then show ?case
  proof cases
    case lt
    with Node.prems(2) obtain l' s t1 where "Erase l v sz = Some (l', s)"
        "DecreaseLevel (Node l' a x lv r) = Some t1" "Erase_rebalance t1 = Some t'"
      by (auto simp del: DecreaseLevel.simps split: bind_splits)
    then show ?thesis by (rule left)
  next
    case gt
    with Node.prems(2) obtain r' s t1 where "Erase r v sz = Some (r', s)"
        "DecreaseLevel (Node l a x lv r') = Some t1" "Erase_rebalance t1 = Some t'"
      by (auto simp del: DecreaseLevel.simps split: bind_splits)
    then show ?thesis by (rule right)
  next
    case leaf
    with Node.prems(2) show ?thesis by simp
  next
    case succ
    with Node.prems(2) obtain w r' s t1 where "Erase r w sz = Some (r', s)"
        "DecreaseLevel (Node l a w lv r') = Some t1" "Erase_rebalance t1 = Some t'"
      by (auto simp del: DecreaseLevel.simps split: bind_splits)
    then show ?thesis by (rule right)
  next
    case pred
    with Node.prems(2) obtain w l' s t1 where "Erase l w sz = Some (l', s)"
        "DecreaseLevel (Node l' a w lv r) = Some t1" "Erase_rebalance t1 = Some t'"
      by (auto simp del: DecreaseLevel.simps split: bind_splits)
    then show ?thesis by (rule left)
  qed
qed

lemma run_ops_invariants:
  assumes "bst (tree_root S)" "distinct (addrs (tree_root S))"
    "distinct (fresh_addrs ops)" "set (fresh_addrs ops) \<inter> set (addrs (tree_root S)) = {}"
  shows "\<exists>S'. run_ops S ops = Some S' \<and> bst (tree_root S') \<and> distinct (addrs (tree_root S'))"
  using assms
proof (induction ops arbitrary: S)
  case Nil
  then show ?case by simp
next
  case (Cons o1 ops)
  show ?case
  proof (cases o1)
    case (Op_insert v fresh)
    from Insert_bst[OF Cons.prems(1), of v fresh "set_size S"] obtain t' ins sz' where
      t': "Insert (tree_root S) v fresh (set_size S) = Some (t', ins, sz')" "bst t'"
        "fresh \<notin> set (addrs (tree_root S)) \<longrightarrow> distinct (addrs (tree_root S)) \<longrightarrow> distinct (addrs t')"
        "set (addrs t') \<subseteq> insert fresh (set (addrs (tree_root S)))"
      by blast
    let ?S' = "\<lparr>tree_root = t', set_size = sz'\<rparr>"
    from Cons.prems Op_insert t' have
      "bst (tree_root ?S')" "distinct (addrs (tree_root ?S'))" "distinct (fresh_addrs ops)"
      "set (fresh_addrs ops) \<inter> set (addrs (tree_root ?S')) = {}"
      by auto
    from Cons.IH[OF this] t'(1) Op_insert show ?thesis
      by (simp add: Set_insert_def)
  next
    case (Op_erase v)
    from Erase_inorder[OF Cons.prems(1), of v "set_size S"] obtain t' sz' where
      t': "Erase (tree_root S) v (set_size S) = Some (t', sz')"
        "inorder t' = remove1 v (inorder (tree_root S))"
      by blast
    let ?S' = "\<lparr>tree_root = t', set_size = sz'\<rparr>"
    from Erase_addrs[OF Cons.prems(2) t'(1)] bst_remove1[OF Cons.prems(1) t'(2)]
      Cons.prems Op_erase have
      "bst (tree_root ?S')" "distinct (addrs (tree_root ?S'))" "distinct (fresh_addrs ops)"
      "set (fresh_addrs ops) \<inter> set (addrs (tree_root ?S')) = {}"
      by auto
    from Cons.IH[OF this] t'(1) Op_erase show ?thesis
      by (simp add: Set_erase_def)
  qed
qed

lemma Set_insert_flag:
  assumes "bst (tree_root S)"
  shows "\<exists>it S'. Set_insert this S v fresh = Some ((it, v \<in> set (inorder (tree_root S))), S')"
  using Insert_bst[OF assms, of v fresh "set_size S"]
  by (auto simp add: Set_insert_def)

subsection \<open>Walking the nodes of a tree\<close>

lemma repr_cong:
  "(\<And>a. a \<in> set (addrs t) \<Longrightarrow> h a = h' a) \<Longrightarrow> repr h p t = repr h' p t"
proof (induction t arbitrary: p)
  case Null
  show ?case by simp
next
  case (Node l a x lv r)
  have "repr h (Some a) l = repr h' (Some a) l"
    by (rule Node.IH(1)) (simp add: Node.prems)
  moreover have "repr h (Some a) r = repr h' (Some a) r"
    by (rule Node.IH(2)) (simp add: Node.prems)
  moreover have "h a = h' a" by (simp add: Node.prems)
  ultimately show ?case by simp
qed

lemma fst_cells: "fst ` set (cells t p) = set (addrs t)"
  by (induction t arbitrary: p) (simp_all add: image_Un)

lemma map_of_cells_notin: "a \<notin> set (addrs t) \<Longrightarrow> map_of (cells t p) a = None"
  by (simp add: map_of_eq_None_iff fst_cells)

lemma repr_cells: "distinct (addrs t) \<Longrightarrow> repr (map_of (cells t p)) p t"
proof (induction t arbitrary: p)
  case Null
  show ?case by simp
next
  case (Node l a x lv r)
  let ?h = "map_of (cells (Node l a x lv r) p)"
  from Node.prems have d: "distinct (addrs l)" "distinct (addrs r)" "a \<notin> set (addrs l)"
      "a \<notin> set (addrs r)" "set (addrs l) \<inter> set (addrs r) = {}"
    by auto
  have "repr ?h (Some a) l = repr (map_of (cells l (Some a))) (Some a) l"
  proof (rule repr_cong)
    fix k assume k: "k \<in> set (addrs l)"
    then have "k \<in> dom (map_of (cells l (Some a)))"
      by (simp add: dom_map_of_conv_image_fst fst_cells)
    with k d(3) show "?h k = map_of (cells l (Some a)) k"
      by (auto simp add: map_add_dom_app_simps)
  qed
  with Node.IH(1)[OF d(1)] have hl: "repr ?h (Some a) l" by blast
  have "repr ?h (Some a) r = repr (map_of (cells r (Some a))) (Some a) r"
  proof (rule repr_cong)
    fix k assume k: "k \<in> set (addrs r)"
    with d(5) have "k \<notin> set (addrs l)" by auto
    then have "k \<notin> dom (map_of (cells l (Some a)))"
      by (simp add: dom_map_of_conv_image_fst fst_cells)
    with k d(4) show "?h k = map_of (cells r (Some a)) k"
      by (auto simp add: map_add_dom_app_simps)
  qed
  with Node.IH(2)[OF d(2)] have hr: "repr ?h (Some a) r" by blast
  have ha: "?h a = Some \<lparr>val = x, level = lv, parent = p, left_son = ptr l, right_son = ptr r\<rparr>"
    by simp
  from ha hl hr show ?case by (simp only: repr.simps simp_thms)
qed

lemma repr_heap_of: "distinct (addrs t) \<Longrightarrow> repr (heap_of t) None t"
  by (simp add: heap_of_def repr_cells)

lemma ptr_in_addrs: "ptr t = Some a \<Longrightarrow> a \<in> set (addrs t)"
  by (cases t) simp_all

lemma ptr_None_iff [simp]: "ptr t = None \<longleftrightarrow> t = Null"
  by (cases t) simp_all

lemma addrs_Nil_iff [simp]: "addrs t = [] \<longleftrightarrow> t = Null"
  by (simp add: addrs_def)

lemma leftmost_loop_hd:
  "repr h p t \<Longrightarrow> ptr t = Some a \<Longrightarrow> leftmost_loop h a = Some (hd (addrs t))"
proof (induction t arbitrary: p a)
  case Null
  then show ?case by simp
next
  case (Node l b x lv r)
  then have a: "a = b" by simp
  show ?case
  proof (cases "ptr l")
    case None
    with Node.prems a show ?thesis
      by (subst leftmost_loop.simps) simp
  next
    case (Some la)
    with Node.prems a have "leftmost_loop h la = Some (hd (addrs l))"
      using Node.IH(1)[of "Some b" la] by simp
    moreover from Some have "addrs l \<noteq> []" by (cases l) simp_all
    ultimately show ?thesis using Node.prems a Some
      by (subst leftmost_loop.simps) simp
  qed
qed

lemma rightmost_loop_last:
  "repr h p t \<Longrightarrow> ptr t = Some a \<Longrightarrow> rightmost_loop h a = Some (last (addrs t))"
proof (induction t arbitrary: p a)
  case Null
  then show ?case by simp
next
  case (Node l b x lv r)
  then have a: "a = b" by simp
  show ?case
  proof (cases "ptr r")
    case None
    with Node.prems a show ?thesis
      by (subst rightmost_loop.simps) simp
  next
    case (Some ra)
    with Node.prems a have "rightmost_loop h ra = Some (last (addrs r))"
      using Node.IH(2)[of "Some b" ra] by simp
    moreover from Some have "addrs r \<noteq> []" by (cases r) simp_all
    ultimately show ?thesis using Node.prems a Some
      by (subst rightmost_loop.simps) simp
  qed
qed

lemma last_no_right_son:
  "repr h p t \<Longrightarrow> t \<noteq> Null \<Longrightarrow> \<exists>n. h (last (addrs t)) = Some n \<and> right_son n = None"
proof (induction t arbitrary: p)
  case Null
  then show ?case by simp
next
  case (Node l a x lv r)
  show ?case
  proof (cases "r = Null")
    case True
    with Node.prems show ?thesis by simp
  next
    case False
    with Node.prems Node.IH(2)[of "Some a"] show ?thesis by simp
  qed
qed

lemma hd_no_left_son:
  "repr h p t \<Longrightarrow> t \<noteq> Null \<Longrightarrow> \<exists>n. h (hd (addrs t)) = Some n \<and> left_son n = None"
proof (induction t arbitrary: p)
  case Null
  then show ?case by simp
next
  case (Node l a x lv r)
  show ?case
  proof (cases "l = Null")
    case True
    with Node.prems show ?thesis by simp
  next
    case False
    with Node.prems Node.IH(1)[of "Some a"] show ?thesis by simp
  qed
qed

lemma repr_root:
  "repr h p t \<Longrightarrow> ptr t = Some a \<Longrightarrow> \<exists>n. h a = Some n \<and> parent n = p"
  by (cases t) auto

lemma Next_climb_last:
  "repr h p t \<Longrightarrow> distinct (addrs t) \<Longrightarrow> ptr t = Some a
   \<Longrightarrow> Next_climb h (last (addrs t)) = Next_climb h a"
proof (induction t arbitrary: p a)
  case Null
  then show ?case by simp
next
  case (Node l b x lv r)
  from Node.prems(3) have a: "a = b" by simp
  from Node.prems(1) have rr: "repr h (Some b) r"
    and hb: "h b = Some \<lparr>val = x, level = lv, parent = p, left_son = ptr l, right_son = ptr r\<rparr>"
    by simp_all
  from Node.prems(2) have dr: "distinct (addrs r)"
    and disj: "set (addrs l) \<inter> set (addrs r) = {}"
    by auto
  show ?case
  proof (cases "ptr r")
    case None
    with a show ?thesis by simp
  next
    case (Some ra)
    then have ne: "addrs r \<noteq> []" by (cases r) simp_all
    from Node.IH(2)[OF rr dr Some] have 1: "Next_climb h (last (addrs r)) = Next_climb h ra" .
    from repr_root[OF rr Some] obtain n where n: "h ra = Some n" "parent n = Some b" by blast
    have "ptr l \<noteq> Some ra"
    proof
      assume "ptr l = Some ra"
      then have "ra \<in> set (addrs l)" by (rule ptr_in_addrs)
      moreover from Some have "ra \<in> set (addrs r)" by (rule ptr_in_addrs)
      ultimately show False using disj by auto
    qed
    with n hb have "Next_climb h ra = Next_climb h b"
      by (subst Next_climb.simps) simp
    with 1 a ne show ?thesis by simp
  qed
qed

lemma Prev_climb_hd:
  "repr h p t \<Longrightarrow> distinct (addrs t) \<Longrightarrow> ptr t = Some a
   \<Longrightarrow> Prev_climb h (hd (addrs t)) = Prev_climb h a"
proof (induction t arbitrary: p a)
  case Null
  then show ?case by simp
next
  case (Node l b x lv r)
  from Node.prems(3) have a: "a = b" by simp
  from Node.prems(1) have rl: "repr h (Some b) l"
    and hb: "h b = Some \<lparr>val = x, level = lv, parent = p, left_son = ptr l, right_son = ptr r\<rparr>"
    by simp_all
  from Node.prems(2) have dl: "distinct (addrs l)"
    and disj: "set (addrs l) \<inter> set (addrs r) = {}"
    by auto
  show ?case
  proof (cases "ptr l")
    case None
    with a show ?thesis by simp
  next
    case (Some la)
    then have ne: "addrs l \<noteq> []" by (cases l) simp_all
    from Node.IH(1)[OF rl dl Some] have 1: "Prev_climb h (hd (addrs l)) = Prev_climb h la" .
    from repr_root[OF rl Some] obtain n where n: "h la = Some n" "parent n = Some b" by blast
    have "ptr r \<noteq> Some la"
    proof
      assume "ptr r = Some la"
      then have "la \<in> set (addrs r)" by (rule ptr_in_addrs)
      moreover from Some have "la \<in> set (addrs l)" by (rule ptr_in_addrs)
      ultimately show False using disj by auto
    qed
    with n hb have "Prev_climb h la = Prev_climb h b"
      by (subst Prev_climb.simps) simp
    with 1 a ne show ?thesis by simp
  qed
qed

lemma Next_step:
  "repr h p t \<Longrightarrow> distinct (addrs t) \<Longrightarrow> Suc i < length (addrs t)
   \<Longrightarrow> Next h (addrs t ! i) = Some (Some (addrs t ! Suc i))"
proof (induction t arbitrary: p i)
  case Null
  then show ?case by simp
next
  case (Node l b x lv r)
  let ?n = "length (addrs l)"
  from Node.prems(1) have rl: "repr h (Some b) l" and rr: "repr h (Some b) r"
    and hb: "h b = Some \<lparr>val = x, level = lv, parent = p, left_son = ptr l, right_son = ptr r\<rparr>"
    by simp_all
  from Node.prems(2) have dl: "distinct (addrs l)" and dr: "distinct (addrs r)"
    by simp_all
  consider (inl) "Suc i < ?n" | (lastl) "Suc i = ?n" | (root) "i = ?n" | (inr) "?n < i"
    by linarith
  then show ?case
  proof cases
    case inl
    then have "addrs (Node l b x lv r) ! i = addrs l ! i"
        "addrs (Node l b x lv r) ! Suc i = addrs l ! Suc i"
      by (simp_all add: nth_append)
    with Node.IH(1)[OF rl dl inl] show ?thesis by simp
  next
    case lastl
    then have ne: "addrs l \<noteq> []" by auto
    then obtain la where la: "ptr l = Some la" by (cases l) simp_all
    from lastl have "length (addrs l) - 1 = i" by arith
    with ne have "last (addrs l) = addrs l ! i" by (simp add: last_conv_nth)
    with lastl have i: "addrs (Node l b x lv r) ! i = last (addrs l)"
      by (simp add: nth_append)
    from lastl have si: "addrs (Node l b x lv r) ! Suc i = b"
      by (simp add: nth_append)
    from ne last_no_right_son[OF rl] obtain n where
      n: "h (last (addrs l)) = Some n" "right_son n = None" by auto
    from repr_root[OF rl la] obtain m where m: "h la = Some m" "parent m = Some b" by blast
    have "Next h (last (addrs l)) = Next_climb h (last (addrs l))"
      using n by (simp add: Next_def)
    also have "\<dots> = Next_climb h la" by (rule Next_climb_last[OF rl dl la])
    also have "\<dots> = Some (Some b)"
      using m hb la by (subst Next_climb.simps) simp
    finally show ?thesis using i si by simp
  next
    case root
    with Node.prems(3) have ne: "addrs r \<noteq> []" by auto
    then obtain ra where ra: "ptr r = Some ra" by (cases r) simp_all
    from root have i: "addrs (Node l b x lv r) ! i = b" by (simp add: nth_append)
    from root ne have si: "addrs (Node l b x lv r) ! Suc i = hd (addrs r)"
      by (simp add: nth_append hd_conv_nth)
    have "Next h b = Some (Some (hd (addrs r)))"
      using hb ra leftmost_loop_hd[OF rr ra] by (simp add: Next_def Successor_h_def)
    with i si show ?thesis by simp
  next
    case inr
    then obtain j where j: "i = Suc (?n + j)" by (metis less_iff_Suc_add)
    with Node.prems(3) have sj: "Suc j < length (addrs r)" by simp
    from j have "addrs (Node l b x lv r) ! i = addrs r ! j"
        "addrs (Node l b x lv r) ! Suc i = addrs r ! Suc j"
      by (simp_all add: nth_append)
    with Node.IH(2)[OF rr dr sj] show ?thesis by simp
  qed
qed

lemma Prev_step:
  "repr h p t \<Longrightarrow> distinct (addrs t) \<Longrightarrow> Suc i < length (addrs t)
   \<Longrightarrow> Prev h (addrs t ! Suc i) = Some (Some (addrs t ! i))"
proof (induction t arbitrary: p i)
  case Null
  then show ?case by simp
next
  case (Node l b x lv r)
  let ?n = "length (addrs l)"
  from Node.prems(1) have rl: "repr h (Some b) l" and rr: "repr h (Some b) r"
    and hb: "h b = Some \<lparr>val = x, level = lv, parent = p, left_son = ptr l, right_son = ptr r\<rparr>"
    by simp_all
  from Node.prems(2) have dl: "distinct (addrs l)" and dr: "distinct (addrs r)"
    by simp_all
  consider (inl) "Suc i < ?n" | (lastl) "Suc i = ?n" | (root) "i = ?n" | (inr) "?n < i"
    by linarith
  then show ?case
  proof cases
    case inl
    then have "addrs (Node l b x lv r) ! i = addrs l ! i"
        "addrs (Node l b x lv r) ! Suc i = addrs l ! Suc i"
      by (simp_all add: nth_append)
    with Node.IH(1)[OF rl dl inl] show ?thesis by simp
  next
    case lastl
    then have ne: "addrs l \<noteq> []" by auto
    then obtain la where la: "ptr l = Some la" by (cases l) simp_all
    from lastl have "length (addrs l) - 1 = i" by arith
    with ne have "last (addrs l) = addrs l ! i" by (simp add: last_conv_nth)
    with lastl have i: "addrs (Node l b x lv r) ! i = last (addrs l)"
      by (simp add: nth_append)
    from lastl have si: "addrs (Node l b x lv r) ! Suc i = b"
      by (simp add: nth_append)
    have "Prev h b = Some (Some (last (addrs l)))"
      using hb la rightmost_loop_last[OF rl la] by (simp add: Prev_def Predecessor_h_def)
    with i si show ?thesis by simp
  next
    case root
    with Node.prems(3) have ne: "addrs r \<noteq> []" by auto
    then obtain ra where ra: "ptr r = Some ra" by (cases r) simp_all
    from root have i: "addrs (Node l b x lv r) ! i = b" by (simp add: nth_append)
    from root ne have si: "addrs (Node l b x lv r) ! Suc i = hd (addrs r)"
      by (simp add: nth_append hd_conv_nth)
    from ne hd_no_left_son[OF rr] obtain n where
      n: "h (hd (addrs r)) = Some n" "left_son n = None" by auto
    from repr_root[OF rr ra] obtain m where m: "h ra = Some m" "parent m = Some b" by blast
    have "Prev h (hd (addrs r)) = Prev_climb h (hd (addrs r))"
      using n by (simp add: Prev_def)
    also have "\<dots> = Prev_climb h ra" by (rule Prev_climb_hd[OF rr dr ra])
    also have "\<dots> = Some (Some b)"
      using m hb ra by (subst Prev_climb.simps) simp
    finally show ?thesis using i si by simp
  next
    case inr
    then obtain j where j: "i = Suc (?n + j)" by (metis less_iff_Suc_add)
    with Node.prems(3) have sj: "Suc j < length (addrs r)" by simp
    from j have "addrs (Node l b x lv r) ! i = addrs r ! j"
        "addrs (Node l b x lv r) ! Suc i = addrs r ! Suc j"
      by (simp_all add: nth_append)
    with Node.IH(2)[OF rr dr sj] show ?thesis by simp
  qed
qed

lemma Next_last:
  assumes "repr h None t" "distinct (addrs t)" "t \<noteq> Null"
  shows "Next h (last (addrs t)) = Some None"
proof -
  from assms(3) obtain a where a: "ptr t = Some a" by (cases t) simp_all
  from last_no_right_son[OF assms(1,3)] obtain n where
    n: "h (last (addrs t)) = Some n" "right_son n = None" by blast
  from repr_root[OF assms(1) a] obtain m where m: "h a = Some m" "parent m = None" by blast
  have "Next h (last (addrs t)) = Next_climb h (last (addrs t))"
    using n by (simp add: Next_def)
  also have "\<dots> = Next_climb h a" by (rule Next_climb_last[OF assms(1,2) a])
  also have "\<dots> = Some None" using m by (subst Next_climb.simps) simp
  finally show ?thesis .
qed

lemma Prev_hd:
  assumes "repr h None t" "distinct (addrs t)" "t \<noteq> Null"
  shows "Prev h (hd (addrs t)) = Some None"
proof -
  from assms(3) obtain a where a: "ptr t = Some a" by (cases t) simp_all
  from hd_no_left_son[OF assms(1,3)] obtain n where
    n: "h (hd (addrs t)) = Some n" "left_son n = None" by blast
  from repr_root[OF assms(1) a] obtain m where m: "h a = Some m" "parent m = None" by blast
  have "Prev h (hd (addrs t)) = Prev_climb h (hd (addrs t))"
    using n by (simp add: Prev_def)
  also have "\<dots> = Prev_climb h a" by (rule Prev_climb_hd[OF assms(1,2) a])
  also have "\<dots> = Some None" using m by (subst Prev_climb.simps) simp
  finally show ?thesis .
qed

lemma begin_loop_hd: "t \<noteq> Null \<Longrightarrow> begin_loop t = Some (hd (addrs t))"
  by (induction t) auto

subsection \<open>The operations on the nodes refine the operations on trees\<close>

lemma upd_Some [simp]: "h a = Some n \<Longrightarrow> upd h a f = Some (h(a \<mapsto> f n))"
  by (simp add: upd_def)

lemma repr_outside:
  "repr h p t \<Longrightarrow> (\<And>b. b \<in> set (addrs t) \<Longrightarrow> h' b = h b) \<Longrightarrow> repr h' p t"
  using repr_cong[of t h' h p] by simp

lemma repr_reparent:
  assumes "repr h p t" "distinct (addrs t)"
    and "\<And>b. b \<in> set (addrs t) \<Longrightarrow> ptr t \<noteq> Some b \<Longrightarrow> h' b = h b"
    and "\<And>a n. ptr t = Some a \<Longrightarrow> h a = Some n \<Longrightarrow> h' a = Some (n\<lparr>parent := q\<rparr>)"
  shows "repr h' q t"
proof (cases t)
  case Null
  then show ?thesis by simp
next
  case (Node l a x lv r)
  with assms(1) have c: "h a = Some \<lparr>val = x, level = lv, parent = p, left_son = ptr l, right_son = ptr r\<rparr>"
    and rl: "repr h (Some a) l" and rr: "repr h (Some a) r"
    by simp_all
  from assms(2) Node have na: "a \<notin> set (addrs l)" "a \<notin> set (addrs r)" by simp_all
  have "repr h' (Some a) l"
    using rl
  proof (rule repr_outside)
    fix b assume "b \<in> set (addrs l)"
    with na Node show "h' b = h b" by (intro assms(3)) auto
  qed
  moreover have "repr h' (Some a) r"
    using rr
  proof (rule repr_outside)
    fix b assume "b \<in> set (addrs r)"
    with na Node show "h' b = h b" by (intro assms(3)) auto
  qed
  moreover from assms(4)[of a, OF _ c] Node have
    "h' a = Some \<lparr>val = x, level = lv, parent = q, left_son = ptr l, right_son = ptr r\<rparr>"
    by simp
  ultimately show ?thesis using Node by simp
qed

lemma Skew_h_refines:
  assumes "repr h p t" "distinct (addrs t)" "ptr t = Some a"
  shows "\<exists>h' a' t'. Skew t = Some t' \<and> Skew_h h a = Some (h', a') \<and> ptr t' = Some a'
           \<and> repr h' p t' \<and> (\<forall>b. b \<notin> set (addrs t) \<longrightarrow> h' b = h b)"
proof -
  from assms(3) obtain l x lv r where t: "t = Node l a x lv r" by (cases t) auto
  from assms(1) t have ca: "h a = Some \<lparr>val = x, level = lv, parent = p, left_son = ptr l, right_son = ptr r\<rparr>"
    and rl: "repr h (Some a) l" and rr: "repr h (Some a) r"
    by simp_all
  show ?thesis
  proof (cases l)
    case Null
    with t ca assms(1) show ?thesis by (simp add: Skew_h_def)
  next
    case (Node sl sa sx slv sr)
    with rl have cs: "h sa = Some \<lparr>val = sx, level = slv, parent = Some a, left_son = ptr sl, right_son = ptr sr\<rparr>"
      and rsl: "repr h (Some sa) sl" and rsr: "repr h (Some sa) sr"
      by simp_all
    from assms(2) t Node have d: "a \<noteq> sa" "a \<notin> set (addrs sl)" "a \<notin> set (addrs sr)"
        "a \<notin> set (addrs r)" "sa \<notin> set (addrs sl)" "sa \<notin> set (addrs sr)" "sa \<notin> set (addrs r)"
        "set (addrs sl) \<inter> set (addrs sr) = {}" "set (addrs sl) \<inter> set (addrs r) = {}"
        "set (addrs sr) \<inter> set (addrs r) = {}" "distinct (addrs sr)"
      by auto
    show ?thesis
    proof (cases "slv = lv")
      case False
      with t Node ca cs assms(1) show ?thesis by (simp add: Skew_h_def)
    next
      case True
      let ?ca = "\<lparr>val = x, level = lv, parent = Some sa, left_son = ptr sr, right_son = ptr r\<rparr>"
      let ?cs = "\<lparr>val = sx, level = slv, parent = p, left_son = ptr sl, right_son = Some a\<rparr>"
      define h2 where "h2 = (case ptr sr of None \<Rightarrow> h | Some q \<Rightarrow>
          (case h q of None \<Rightarrow> h | Some c \<Rightarrow> h(q \<mapsto> c\<lparr>parent := Some a\<rparr>)))"
      define h' where "h' = h2(sa \<mapsto> ?cs, a \<mapsto> ?ca)"
      have h2_out: "h2 b = h b" if "ptr sr \<noteq> Some b" for b
        using that by (auto simp add: h2_def split: option.splits)
      have h2_out': "h2 b = h b" if "b \<notin> set (addrs sr)" for b
        using that ptr_in_addrs[of sr b] by (intro h2_out) auto
      have root_sr: "ptr sr \<noteq> Some a" "ptr sr \<noteq> Some sa"
        using d(3,6) ptr_in_addrs[of sr] by auto
      have run: "Skew_h h a = Some (h', sa)"
      proof (cases "ptr sr")
        case None
        with ca cs d(1) True Node show ?thesis
          by (simp add: Skew_h_def h'_def h2_def fun_upd_twist)
      next
        case (Some q)
        with root_sr have q: "q \<noteq> a" "q \<noteq> sa" by auto
        from repr_root[OF rsr Some] obtain c where c: "h q = Some c" by blast
        from Some ca cs c d(1) q True Node show ?thesis
          by (simp add: Skew_h_def h'_def h2_def fun_upd_twist)
      qed
      have "repr h' (Some sa) sl"
        using rsl
      proof (rule repr_outside)
        fix b assume b: "b \<in> set (addrs sl)"
        with d have "b \<noteq> a" "b \<noteq> sa" "b \<notin> set (addrs sr)" by auto
        then show "h' b = h b" by (simp add: h'_def h2_out')
      qed
      moreover have "repr h' (Some a) r"
        using rr
      proof (rule repr_outside)
        fix b assume b: "b \<in> set (addrs r)"
        with d have "b \<noteq> a" "b \<noteq> sa" "b \<notin> set (addrs sr)" by auto
        then show "h' b = h b" by (simp add: h'_def h2_out')
      qed
      moreover have "repr h' (Some a) sr"
        using rsr d(11)
      proof (rule repr_reparent)
        fix b assume "b \<in> set (addrs sr)" "ptr sr \<noteq> Some b"
        with d show "h' b = h b" by (auto simp add: h'_def h2_out)
      next
        fix q n assume "ptr sr = Some q" "h q = Some n"
        with root_sr show "h' q = Some (n\<lparr>parent := Some a\<rparr>)"
          by (auto simp add: h'_def h2_def)
      qed
      moreover have "h' sa = Some ?cs" "h' a = Some ?ca"
        using d(1) by (simp_all add: h'_def)
      ultimately have "repr h' p (Node sl sa sx slv (Node sr a x lv r))"
        by simp
      moreover have "\<forall>b. b \<notin> set (addrs t) \<longrightarrow> h' b = h b"
        using t Node by (auto simp add: h'_def h2_out')
      ultimately show ?thesis using run t Node True by simp
    qed
  qed
qed

lemma Split_h_refines:
  assumes "repr h p t" "distinct (addrs t)" "ptr t = Some a"
  shows "\<exists>h' a' t'. Split t = Some t' \<and> Split_h h a = Some (h', a') \<and> ptr t' = Some a'
           \<and> repr h' p t' \<and> (\<forall>b. b \<notin> set (addrs t) \<longrightarrow> h' b = h b)"
proof -
  from assms(3) obtain l x lv r where t: "t = Node l a x lv r" by (cases t) auto
  from assms(1) t have ca: "h a = Some \<lparr>val = x, level = lv, parent = p, left_son = ptr l, right_son = ptr r\<rparr>"
    and rl: "repr h (Some a) l" and rr: "repr h (Some a) r"
    by simp_all
  show ?thesis
  proof (cases r)
    case Null
    with t ca assms(1) show ?thesis by (simp add: Split_h_def)
  next
    case (Node sl sa sx slv sr)
    with rr have cs: "h sa = Some \<lparr>val = sx, level = slv, parent = Some a, left_son = ptr sl, right_son = ptr sr\<rparr>"
      and rsl: "repr h (Some sa) sl" and rsr: "repr h (Some sa) sr"
      by simp_all
    from assms(2) t Node have d: "a \<noteq> sa" "a \<notin> set (addrs sl)" "a \<notin> set (addrs sr)"
        "a \<notin> set (addrs l)" "sa \<notin> set (addrs sl)" "sa \<notin> set (addrs sr)" "sa \<notin> set (addrs l)"
        "set (addrs sl) \<inter> set (addrs sr) = {}" "set (addrs l) \<inter> set (addrs sl) = {}"
        "set (addrs l) \<inter> set (addrs sr) = {}" "distinct (addrs sl)"
      by auto
    show ?thesis
    proof (cases sr)
      case Null
      with t Node ca cs assms(1) show ?thesis by (simp add: Split_h_def)
    next
      case rrN: (Node rrl rra rrx rrlv rrr)
      with rsr have crr: "h rra = Some \<lparr>val = rrx, level = rrlv, parent = Some sa,
          left_son = ptr rrl, right_son = ptr rrr\<rparr>"
        by simp
      show ?thesis
      proof (cases "lv = rrlv")
        case False
        with t Node rrN ca cs crr assms(1) show ?thesis by (simp add: Split_h_def)
      next
        case True
        let ?ca = "\<lparr>val = x, level = lv, parent = Some sa, left_son = ptr l, right_son = ptr sl\<rparr>"
        let ?cs = "\<lparr>val = sx, level = slv + 1, parent = p, left_son = Some a, right_son = ptr sr\<rparr>"
        define h2 where "h2 = (case ptr sl of None \<Rightarrow> h | Some q \<Rightarrow>
            (case h q of None \<Rightarrow> h | Some c \<Rightarrow> h(q \<mapsto> c\<lparr>parent := Some a\<rparr>)))"
        define h' where "h' = h2(sa \<mapsto> ?cs, a \<mapsto> ?ca)"
        have h2_out: "h2 b = h b" if "ptr sl \<noteq> Some b" for b
          using that by (auto simp add: h2_def split: option.splits)
        have h2_out': "h2 b = h b" if "b \<notin> set (addrs sl)" for b
          using that ptr_in_addrs[of sl b] by (intro h2_out) auto
        have root_sl: "ptr sl \<noteq> Some a" "ptr sl \<noteq> Some sa"
          using d(2,5) ptr_in_addrs[of sl] by auto
        have rra: "rra \<notin> set (addrs sl)" "rra \<noteq> a" "rra \<noteq> sa"
          using d rrN by auto
        have run: "Split_h h a = Some (h', sa)"
        proof (cases "ptr sl")
          case None
          with ca cs crr d(1) True Node rrN rra show ?thesis
            by (simp add: Split_h_def h'_def h2_def fun_upd_twist)
        next
          case (Some q)
          with root_sl have q: "q \<noteq> a" "q \<noteq> sa" by auto
          from repr_root[OF rsl Some] obtain c where c: "h q = Some c" by blast
          from Some ca cs crr c d(1) q True Node rrN rra show ?thesis
            by (simp add: Split_h_def h'_def h2_def fun_upd_twist)
        qed
        have "repr h' (Some a) l"
          using rl
        proof (rule repr_outside)
          fix b assume b: "b \<in> set (addrs l)"
          with d have "b \<noteq> a" "b \<noteq> sa" "b \<notin> set (addrs sl)" by auto
          then show "h' b = h b" by (simp add: h'_def h2_out')
        qed
        moreover have "repr h' (Some sa) sr"
          using rsr
        proof (rule repr_outside)
          fix b assume b: "b \<in> set (addrs sr)"
          with d have "b \<noteq> a" "b \<noteq> sa" "b \<notin> set (addrs sl)" by auto
          then show "h' b = h b" by (simp add: h'_def h2_out')
        qed
        moreover have "repr h' (Some a) sl"
          using rsl d(11)
        proof (rule repr_reparent)
          fix b assume "b \<in> set (addrs sl)" "ptr sl \<noteq> Some b"
          with d show "h' b = h b" by (auto simp add: h'_def h2_out)
        next
          fix q n assume "ptr sl = Some q" "h q = Some n"
          with root_sl show "h' q = Some (n\<lparr>parent := Some a\<rparr>)"
            by (auto simp add: h'_def h2_def)
        qed
        moreover have "h' sa = Some ?cs" "h' a = Some ?ca"
          using d(1) by (simp_all add: h'_def)
        ultimately have "repr h' p (Node (Node l a x lv sl) sa sx (slv + 1) sr)"
          by simp
        moreover have "\<forall>b. b \<notin> set (addrs t) \<longrightarrow> h' b = h b"
          using t Node by (auto simp add: h'_def h2_out')
        ultimately show ?thesis using run t Node rrN True by simp
      qed
    qed
  qed
qed

lemma repr_in_heap: "repr h p t \<Longrightarrow> b \<in> set (addrs t) \<Longrightarrow> h b \<noteq> None"
  by (induction t arbitrary: p) auto

lemma Skew_entries: "Skew t = Some t' \<Longrightarrow> entries t' = entries t"
  by (cases t) (auto split: tree.splits if_splits)

lemma Split_entries: "Split t = Some t' \<Longrightarrow> entries t' = entries t"
  by (cases t) (auto split: tree.splits if_splits)

lemma Insert_fixup_h:
  assumes r: "repr h p (Node l a x lv r)" and d: "distinct (addrs (Node l a x lv r))"
    and s1: "Skew (Node l a x lv r) = Some t1" and s2: "Split t1 = Some t'"
  shows "\<exists>h4 a4 h5 a5. Skew_h h a = Some (h4, a4) \<and> Split_h h4 a4 = Some (h5, a5)
           \<and> ptr t' = Some a5 \<and> repr h5 p t' \<and> addrs t' = addrs (Node l a x lv r)
           \<and> (\<forall>b. b \<notin> set (addrs (Node l a x lv r)) \<longrightarrow> h5 b = h b)"
proof -
  from Skew_h_refines[OF r d, of a] s1 obtain h4 a4 where
    4: "Skew_h h a = Some (h4, a4)" "ptr t1 = Some a4" "repr h4 p t1"
       "\<forall>b. b \<notin> set (addrs (Node l a x lv r)) \<longrightarrow> h4 b = h b"
    by auto
  from Skew_entries[OF s1] have e1: "addrs t1 = addrs (Node l a x lv r)"
    by (simp add: addrs_def)
  with d have d1: "distinct (addrs t1)" by simp
  from Split_h_refines[OF 4(3) d1 4(2)] s2 obtain h5 a5 where
    5: "Split_h h4 a4 = Some (h5, a5)" "ptr t' = Some a5" "repr h5 p t'"
       "\<forall>b. b \<notin> set (addrs t1) \<longrightarrow> h5 b = h4 b"
    by auto
  from Split_entries[OF s2] e1 have e2: "addrs t' = addrs (Node l a x lv r)"
    by (simp add: addrs_def)
  from 4 5 e1 e2 show ?thesis by auto
qed

lemma Insert_h_refines:
  assumes "repr h p t" "distinct (addrs t)" "h fresh = None"
    and "Insert t v fresh sz = Some (t', ins, sz')"
  shows "\<exists>h' a'. Insert_h h (ptr t) v fresh sz = Some (h', a', ins, sz') \<and> ptr t' = Some a'
           \<and> repr h' (if t = Null then None else p) t' \<and> distinct (addrs t')
           \<and> set (addrs t') \<subseteq> insert fresh (set (addrs t))
           \<and> (\<forall>b. b \<notin> set (addrs t') \<longrightarrow> h' b = h b)"
  using assms
proof (induction t arbitrary: p t' ins sz' h)
  case Null
  then show ?case
    by (subst Insert_h.simps) auto
next
  case (Node l a x lv r)
  from Node.prems(1) have ca: "h a = Some \<lparr>val = x, level = lv, parent = p, left_son = ptr l, right_son = ptr r\<rparr>"
    and rl: "repr h (Some a) l" and rr: "repr h (Some a) r"
    by simp_all
  from Node.prems(2) have d: "distinct (addrs l)" "distinct (addrs r)" "a \<notin> set (addrs l)"
      "a \<notin> set (addrs r)" "set (addrs l) \<inter> set (addrs r) = {}"
    by auto
  from Node.prems(3) ca have af: "a \<noteq> fresh" by auto
  from Node.prems(3) repr_in_heap[OF rl, of fresh] repr_in_heap[OF rr, of fresh] have
    fr: "fresh \<notin> set (addrs l)" "fresh \<notin> set (addrs r)" by auto
  consider (lt) "v < x" | (gt) "x < v" "\<not> v < x" | (eq) "\<not> v < x" "\<not> x < v"
    by (metis less_asym)
  then show ?case
  proof cases
    case lt
    with Node.prems(4) obtain l1 t1 where
      i: "Insert l v fresh sz = Some (l1, ins, sz')" "l1 \<noteq> Null"
         "Skew (Node l1 a x lv r) = Some t1" "Split t1 = Some t'"
      by (auto simp del: Skew.simps Split.simps split: bind_splits if_splits)
    from Node.IH(1)[OF rl d(1) Node.prems(3) i(1)] obtain h1 a1 where
      1: "Insert_h h (ptr l) v fresh sz = Some (h1, a1, ins, sz')" "ptr l1 = Some a1"
         "repr h1 (if l = Null then None else Some a) l1" "distinct (addrs l1)"
         "set (addrs l1) \<subseteq> insert fresh (set (addrs l))"
         "\<forall>b. b \<notin> set (addrs l1) \<longrightarrow> h1 b = h b"
      by blast
    from 1(2) have a1: "a1 \<in> set (addrs l1)" by (rule ptr_in_addrs)
    from 1(5) d(3) af have al1: "a \<notin> set (addrs l1)" by auto
    with a1 have aa1: "a1 \<noteq> a" by auto
    from repr_root[OF 1(3,2)] obtain c1 where c1: "h1 a1 = Some c1" by blast
    from 1(6) al1 ca have h1a: "h1 a = Some \<lparr>val = x, level = lv, parent = p, left_son = ptr l, right_son = ptr r\<rparr>"
      by simp
    define h3 where "h3 = h1(a \<mapsto> \<lparr>val = x, level = lv, parent = p, left_son = Some a1, right_son = ptr r\<rparr>,
        a1 \<mapsto> c1\<lparr>parent := Some a\<rparr>)"
    have "repr h3 (Some a) l1"
      using 1(3,4)
    proof (rule repr_reparent)
      fix b assume "b \<in> set (addrs l1)" "ptr l1 \<noteq> Some b"
      with 1(2) al1 show "h3 b = h1 b" by (auto simp add: h3_def)
    next
      fix q n assume "ptr l1 = Some q" "h1 q = Some n"
      with 1(2) c1 show "h3 q = Some (n\<lparr>parent := Some a\<rparr>)" by (simp add: h3_def)
    qed
    moreover have "repr h3 (Some a) r"
      using rr
    proof (rule repr_outside)
      fix b assume b: "b \<in> set (addrs r)"
      with d fr 1(5) have "b \<noteq> a" "b \<notin> set (addrs l1)" by auto
      with a1 1(6) show "h3 b = h b" by (auto simp add: h3_def)
    qed
    moreover have "h3 a = Some \<lparr>val = x, level = lv, parent = p, left_son = ptr l1, right_son = ptr r\<rparr>"
      using aa1 1(2) by (simp add: h3_def)
    ultimately have r3: "repr h3 p (Node l1 a x lv r)" by simp
    have d3: "distinct (addrs (Node l1 a x lv r))"
      using 1(4,5) d fr al1 by auto
    from Insert_fixup_h[OF r3 d3 i(3,4)] obtain h4 a4 h5 a5 where
      5: "Skew_h h3 a = Some (h4, a4)" "Split_h h4 a4 = Some (h5, a5)" "ptr t' = Some a5"
         "repr h5 p t'" "addrs t' = addrs (Node l1 a x lv r)"
         "\<forall>b. b \<notin> set (addrs (Node l1 a x lv r)) \<longrightarrow> h5 b = h3 b"
      by blast
    have run: "Insert_h h (ptr (Node l a x lv r)) v fresh sz = Some (h5, a5, ins, sz')"
      using ca lt 1(1) h1a aa1 c1 5(1,2)
      by (subst Insert_h.simps) (simp add: h3_def)
    have "\<forall>b. b \<notin> set (addrs t') \<longrightarrow> h5 b = h b"
      using 5(5,6) 1(6) a1 by (auto simp add: h3_def)
    moreover have "set (addrs t') \<subseteq> insert fresh (set (addrs (Node l a x lv r)))"
      using 5(5) 1(5) by auto
    ultimately show ?thesis using run 5(3,4,5) d3 by simp
  next
    case gt
    with Node.prems(4) obtain r1 t1 where
      i: "Insert r v fresh sz = Some (r1, ins, sz')" "r1 \<noteq> Null"
         "Skew (Node l a x lv r1) = Some t1" "Split t1 = Some t'"
      by (auto simp del: Skew.simps Split.simps split: bind_splits if_splits)
    from Node.IH(2)[OF rr d(2) Node.prems(3) i(1)] obtain h1 a1 where
      1: "Insert_h h (ptr r) v fresh sz = Some (h1, a1, ins, sz')" "ptr r1 = Some a1"
         "repr h1 (if r = Null then None else Some a) r1" "distinct (addrs r1)"
         "set (addrs r1) \<subseteq> insert fresh (set (addrs r))"
         "\<forall>b. b \<notin> set (addrs r1) \<longrightarrow> h1 b = h b"
      by blast
    from 1(2) have a1: "a1 \<in> set (addrs r1)" by (rule ptr_in_addrs)
    from 1(5) d(4) af have ar1: "a \<notin> set (addrs r1)" by auto
    with a1 have aa1: "a1 \<noteq> a" by auto
    from repr_root[OF 1(3,2)] obtain c1 where c1: "h1 a1 = Some c1" by blast
    from 1(6) ar1 ca have h1a: "h1 a = Some \<lparr>val = x, level = lv, parent = p, left_son = ptr l, right_son = ptr r\<rparr>"
      by simp
    define h3 where "h3 = h1(a \<mapsto> \<lparr>val = x, level = lv, parent = p, left_son = ptr l, right_son = Some a1\<rparr>,
        a1 \<mapsto> c1\<lparr>parent := Some a\<rparr>)"
    have "repr h3 (Some a) r1"
      using 1(3,4)
    proof (rule repr_reparent)
      fix b assume "b \<in> set (addrs r1)" "ptr r1 \<noteq> Some b"
      with 1(2) ar1 show "h3 b = h1 b" by (auto simp add: h3_def)
    next
      fix q n assume "ptr r1 = Some q" "h1 q = Some n"
      with 1(2) c1 show "h3 q = Some (n\<lparr>parent := Some a\<rparr>)" by (simp add: h3_def)
    qed
    moreover have "repr h3 (Some a) l"
      using rl
    proof (rule repr_outside)
      fix b assume b: "b \<in> set (addrs l)"
      with d fr 1(5) have "b \<noteq> a" "b \<notin> set (addrs r1)" by auto
      with a1 1(6) show "h3 b = h b" by (auto simp add: h3_def)
    qed
    moreover have "h3 a = Some \<lparr>val = x, level = lv, parent = p, left_son = ptr l, right_son = ptr r1\<rparr>"
      using aa1 1(2) by (simp add: h3_def)
    ultimately have r3: "repr h3 p (Node l a x lv r1)" by simp
    have d3: "distinct (addrs (Node l a x lv r1))"
      using 1(4,5) d fr ar1 by auto
    from Insert_fixup_h[OF r3 d3 i(3,4)] obtain h4 a4 h5 a5 where
      5: "Skew_h h3 a = Some (h4, a4)" "Split_h h4 a4 = Some (h5, a5)" "ptr t' = Some a5"
         "repr h5 p t'" "addrs t' = addrs (Node l a x lv r1)"
         "\<forall>b. b \<notin> set (addrs (Node l a x lv r1)) \<longrightarrow> h5 b = h3 b"
      by blast
    have run: "Insert_h h (ptr (Node l a x lv r)) v fresh sz = Some (h5, a5, ins, sz')"
      using ca gt 1(1) h1a aa1 c1 5(1,2)
      by (subst Insert_h.simps) (simp add: h3_def)
    have "\<forall>b. b \<notin> set (addrs t') \<longrightarrow> h5 b = h b"
      using 5(5,6) 1(6) a1 by (auto simp add: h3_def)
    moreover have "set (addrs t') \<subseteq> insert fresh (set (addrs (Node l a x lv r)))"
      using 5(5) 1(5) by auto
    ultimately show ?thesis using run 5(3,4,5) d3 by simp
  next
    case eq
    with Node.prems(4) have "t' = Node l a x lv r" "ins = a" "sz' = sz" by auto
    moreover have "Insert_h h (ptr (Node l a x lv r)) v fresh sz = Some (h, a, a, sz)"
      using ca eq by (subst Insert_h.simps) simp
    ultimately show ?thesis using Node.prems(1,2) by auto
  qed
qed

lemma refinesD:
  assumes "refines fh f" "repr h p t" "distinct (addrs t)" "ptr t = Some a"
  shows "\<exists>h' a' t'. f t = Some t' \<and> fh h a = Some (h', a') \<and> ptr t' = Some a'
           \<and> repr h' p t' \<and> entries t' = entries t
           \<and> (\<forall>b. b \<notin> set (addrs t) \<longrightarrow> h' b = h b)"
  using assms unfolding refines_def by blast

lemma refines_Skew: "refines Skew_h Skew"
  unfolding refines_def
proof (intro allI impI)
  fix h :: "'a heap" and p t a
  assume a: "repr h p t" "distinct (addrs t)" "ptr t = Some a"
  from Skew_h_refines[OF a] obtain h' a' t' where
    1: "Skew t = Some t'" "Skew_h h a = Some (h', a')" "ptr t' = Some a'" "repr h' p t'"
       "\<forall>b. b \<notin> set (addrs t) \<longrightarrow> h' b = h b"
    by blast
  with Skew_entries[OF 1(1)] show "\<exists>h' a' t'. Skew t = Some t' \<and> Skew_h h a = Some (h', a')
      \<and> ptr t' = Some a' \<and> repr h' p t' \<and> entries t' = entries t
      \<and> (\<forall>b. b \<notin> set (addrs t) \<longrightarrow> h' b = h b)"
    by blast
qed

lemma refines_Split: "refines Split_h Split"
  unfolding refines_def
proof (intro allI impI)
  fix h :: "'a heap" and p t a
  assume a: "repr h p t" "distinct (addrs t)" "ptr t = Some a"
  from Split_h_refines[OF a] obtain h' a' t' where
    1: "Split t = Some t'" "Split_h h a = Some (h', a')" "ptr t' = Some a'" "repr h' p t'"
       "\<forall>b. b \<notin> set (addrs t) \<longrightarrow> h' b = h b"
    by blast
  with Split_entries[OF 1(1)] show "\<exists>h' a' t'. Split t = Some t' \<and> Split_h h a = Some (h', a')
      \<and> ptr t' = Some a' \<and> repr h' p t' \<and> entries t' = entries t
      \<and> (\<forall>b. b \<notin> set (addrs t) \<longrightarrow> h' b = h b)"
    by blast
qed

lemma refines_bind:
  assumes "refines fh f" "refines gh g"
  shows "refines (\<lambda>h a. fh h a \<bind> (\<lambda>(h1, a1). gh h1 a1)) (\<lambda>t. f t \<bind> g)"
  unfolding refines_def
proof (intro allI impI)
  fix h :: "'a heap" and p t a
  assume a: "repr h p t" "distinct (addrs t)" "ptr t = Some a"
  from refinesD[OF assms(1) a] obtain h1 a1 t1 where
    1: "f t = Some t1" "fh h a = Some (h1, a1)" "ptr t1 = Some a1" "repr h1 p t1"
       "entries t1 = entries t" "\<And>b. b \<notin> set (addrs t) \<Longrightarrow> h1 b = h b"
    by blast
  from 1(5) have e1: "addrs t1 = addrs t" by (simp add: addrs_def)
  with a(2) have d1: "distinct (addrs t1)" by simp
  from refinesD[OF assms(2) 1(4) d1 1(3)] obtain h2 a2 t2 where
    2: "g t1 = Some t2" "gh h1 a1 = Some (h2, a2)" "ptr t2 = Some a2" "repr h2 p t2"
       "entries t2 = entries t1" "\<And>b. b \<notin> set (addrs t1) \<Longrightarrow> h2 b = h1 b"
    by blast
  from 1 2 e1 show "\<exists>h' a' t'. f t \<bind> g = Some t'
      \<and> fh h a \<bind> (\<lambda>(h1, a1). gh h1 a1) = Some (h', a')
      \<and> ptr t' = Some a' \<and> repr h' p t' \<and> entries t' = entries t
      \<and> (\<forall>b. b \<notin> set (addrs t) \<longrightarrow> h' b = h b)"
    by simp
qed

lemma refines_on_right_son:
  assumes "refines fh f"
  shows "refines (on_right_son_h fh) (on_right_son f)"
  unfolding refines_def
proof (intro allI impI)
  fix h :: "'a heap" and p t a
  assume a: "repr h p t" "distinct (addrs t)" "ptr t = Some a"
  from a(3) obtain l x lv r where t: "t = Node l a x lv r" by (cases t) auto
  from a(1) t have ca: "h a = Some \<lparr>val = x, level = lv, parent = p, left_son = ptr l, right_son = ptr r\<rparr>"
    and rl: "repr h (Some a) l" and rr: "repr h (Some a) r"
    by simp_all
  from a(2) t have d: "distinct (addrs r)" "a \<notin> set (addrs l)"
      "a \<notin> set (addrs r)" "set (addrs l) \<inter> set (addrs r) = {}"
    by auto
  show "\<exists>h' a' t'. on_right_son f t = Some t' \<and> on_right_son_h fh h a = Some (h', a')
      \<and> ptr t' = Some a' \<and> repr h' p t' \<and> entries t' = entries t
      \<and> (\<forall>b. b \<notin> set (addrs t) \<longrightarrow> h' b = h b)"
  proof (cases "ptr r")
    case None
    then have "r = Null" by simp
    with t ca a(1) show ?thesis by (simp add: on_right_son_h_def)
  next
    case (Some ra)
    then have rn: "r \<noteq> Null" by auto
    from refinesD[OF assms rr d(1) Some] obtain h1 ra' r' where
      1: "f r = Some r'" "fh h ra = Some (h1, ra')" "ptr r' = Some ra'" "repr h1 (Some a) r'"
         "entries r' = entries r" "\<And>b. b \<notin> set (addrs r) \<Longrightarrow> h1 b = h b"
      by blast
    from 1(5) have e1: "addrs r' = addrs r" by (simp add: addrs_def)
    let ?c = "\<lparr>val = x, level = lv, parent = p, left_son = ptr l, right_son = Some ra'\<rparr>"
    define h2 where "h2 = h1(a \<mapsto> ?c)"
    from 1(6)[OF d(3)] ca have h1a: "h1 a = Some \<lparr>val = x, level = lv, parent = p, left_son = ptr l, right_son = ptr r\<rparr>"
      by simp
    have run: "on_right_son_h fh h a = Some (h2, a)"
      using ca Some 1(2) h1a by (simp add: on_right_son_h_def h2_def)
    have "repr h2 (Some a) l"
      using rl
    proof (rule repr_outside)
      fix b assume "b \<in> set (addrs l)"
      with d have "b \<noteq> a" "b \<notin> set (addrs r)" by auto
      then show "h2 b = h b" by (simp add: h2_def 1(6))
    qed
    moreover have "repr h2 (Some a) r'"
      using 1(4)
    proof (rule repr_outside)
      fix b assume "b \<in> set (addrs r')"
      with d e1 have "b \<noteq> a" by auto
      then show "h2 b = h1 b" by (simp add: h2_def)
    qed
    moreover have "h2 a = Some \<lparr>val = x, level = lv, parent = p, left_son = ptr l, right_son = ptr r'\<rparr>"
      using 1(3) by (simp add: h2_def)
    ultimately have "repr h2 p (Node l a x lv r')" by simp
    moreover have "\<forall>b. b \<notin> set (addrs t) \<longrightarrow> h2 b = h b"
      using t by (auto simp add: h2_def 1(6))
    ultimately show ?thesis using run t rn 1(1,5) by simp
  qed
qed

lemma on_right_son_h_same: "on_right_son_h f h a = Some (h', a') \<Longrightarrow> a' = a"
  by (auto simp add: on_right_son_h_def split: bind_splits option.splits)

lemma refines_Erase_skews:
  "refines Erase_skews_h (on_right_son (\<lambda>r. Skew r \<bind> on_right_son Skew))"
  unfolding refines_def
proof (intro allI impI)
  fix h :: "'a heap" and p t a
  assume a: "repr h p t" "distinct (addrs t)" "ptr t = Some a"
  from a(3) obtain l x lv r where t: "t = Node l a x lv r" by (cases t) auto
  from a(1) t have ca: "h a = Some \<lparr>val = x, level = lv, parent = p, left_son = ptr l, right_son = ptr r\<rparr>"
    and rl: "repr h (Some a) l" and rr: "repr h (Some a) r"
    by simp_all
  from a(2) t have d: "distinct (addrs r)" "a \<notin> set (addrs l)"
      "a \<notin> set (addrs r)" "set (addrs l) \<inter> set (addrs r) = {}"
    by auto
  show "\<exists>h' a' t'. on_right_son (\<lambda>r. Skew r \<bind> on_right_son Skew) t = Some t'
      \<and> Erase_skews_h h a = Some (h', a')
      \<and> ptr t' = Some a' \<and> repr h' p t' \<and> entries t' = entries t
      \<and> (\<forall>b. b \<notin> set (addrs t) \<longrightarrow> h' b = h b)"
  proof (cases "ptr r")
    case None
    then have "r = Null" by simp
    with t ca a(1) show ?thesis by (simp add: Erase_skews_h_def)
  next
    case (Some ra)
    then have rn: "r \<noteq> Null" by auto
    from refinesD[OF refines_Skew rr d(1) Some] obtain h1 ra1 r1 where
      1: "Skew r = Some r1" "Skew_h h ra = Some (h1, ra1)" "ptr r1 = Some ra1"
         "repr h1 (Some a) r1" "entries r1 = entries r" "\<And>b. b \<notin> set (addrs r) \<Longrightarrow> h1 b = h b"
      by blast
    from 1(5) have e1: "addrs r1 = addrs r" by (simp add: addrs_def)
    let ?c = "\<lparr>val = x, level = lv, parent = p, left_son = ptr l, right_son = Some ra1\<rparr>"
    define h2 where "h2 = h1(a \<mapsto> ?c)"
    from 1(6)[OF d(3)] ca have h1a: "h1 a = Some \<lparr>val = x, level = lv, parent = p, left_son = ptr l, right_son = ptr r\<rparr>"
      by simp
    have r12: "repr h2 (Some a) r1" using 1(4)
      by (rule repr_outside) (use d e1 in \<open>auto simp add: h2_def\<close>)
    from d(1) e1 have d1: "distinct (addrs r1)" by simp
    from refinesD[OF refines_on_right_son[OF refines_Skew] r12 d1 1(3)] obtain h3 ra3 r3 where
      3: "on_right_son Skew r1 = Some r3" "on_right_son_h Skew_h h2 ra1 = Some (h3, ra3)"
         "ptr r3 = Some ra3" "repr h3 (Some a) r3" "entries r3 = entries r1"
         "\<And>b. b \<notin> set (addrs r1) \<Longrightarrow> h3 b = h2 b"
      by blast
    from on_right_son_h_same[OF 3(2)] have ra3: "ra3 = ra1" .
    from 3(5) e1 have e3: "addrs r3 = addrs r" by (simp add: addrs_def)
    have run: "Erase_skews_h h a = Some (h3, a)"
      using ca Some 1(2) h1a 3(2) by (simp add: Erase_skews_h_def h2_def)
    have "repr h3 (Some a) l"
      using rl
    proof (rule repr_outside)
      fix b assume "b \<in> set (addrs l)"
      with d have "b \<noteq> a" "b \<notin> set (addrs r)" by auto
      then show "h3 b = h b" using 3(6)[of b] 1(6)[of b] e1 by (simp add: h2_def)
    qed
    moreover have "h3 a = Some \<lparr>val = x, level = lv, parent = p, left_son = ptr l, right_son = ptr r3\<rparr>"
      using 3(6)[of a] d(3) e1 3(3) ra3 by (simp add: h2_def)
    ultimately have "repr h3 p (Node l a x lv r3)" using 3(4) by simp
    moreover have "\<forall>b. b \<notin> set (addrs t) \<longrightarrow> h3 b = h b"
    proof (intro allI impI)
      fix b assume "b \<notin> set (addrs t)"
      with t have "b \<noteq> a" "b \<notin> set (addrs r)" by auto
      then show "h3 b = h b" using 3(6)[of b] 1(6)[of b] e1 by (simp add: h2_def)
    qed
    ultimately show ?thesis using run t rn 1(1) 3(1) e3 1(5) 3(5) by simp
  qed
qed

lemma refines_Erase_rebalance: "refines Erase_rebalance_h Erase_rebalance"
proof -
  have eq1: "Erase_rebalance =
      (\<lambda>t::'a tree. (on_right_son (\<lambda>r. Skew r \<bind> on_right_son Skew) t \<bind> Split) \<bind> on_right_son Split)"
    by (rule ext) (simp add: Erase_rebalance_def)
  have eq2: "Erase_rebalance_h =
      (\<lambda>(h::'a heap) a. (Erase_skews_h h a \<bind> (\<lambda>(h1, v1). Split_h h1 v1))
           \<bind> (\<lambda>(h2, v2). on_right_son_h Split_h h2 v2))"
    by (intro ext) (simp add: Erase_rebalance_h_def split: prod.splits bind_splits)
  show ?thesis
    unfolding eq1 eq2
    by (intro refines_bind refines_on_right_son refines_Erase_skews refines_Split)
qed

lemma repr_relevel:
  assumes "repr h p t" "distinct (addrs t)"
    and "\<And>b. b \<in> set (addrs t) \<Longrightarrow> ptr t \<noteq> Some b \<Longrightarrow> h' b = h b"
    and "\<And>a n. ptr t = Some a \<Longrightarrow> h a = Some n \<Longrightarrow> h' a = Some (n\<lparr>level := k\<rparr>)"
  shows "repr h' p (set_level t k)"
proof (cases t)
  case Null
  then show ?thesis by simp
next
  case (Node l a x lv r)
  with assms(1) have c: "h a = Some \<lparr>val = x, level = lv, parent = p, left_son = ptr l, right_son = ptr r\<rparr>"
    and rl: "repr h (Some a) l" and rr: "repr h (Some a) r"
    by simp_all
  from assms(2) Node have na: "a \<notin> set (addrs l)" "a \<notin> set (addrs r)" by simp_all
  have "repr h' (Some a) l"
    using rl
  proof (rule repr_outside)
    fix b assume "b \<in> set (addrs l)"
    with na Node show "h' b = h b" by (intro assms(3)) auto
  qed
  moreover have "repr h' (Some a) r"
    using rr
  proof (rule repr_outside)
    fix b assume "b \<in> set (addrs r)"
    with na Node show "h' b = h b" by (intro assms(3)) auto
  qed
  moreover from assms(4)[of a, OF _ c] Node have
    "h' a = Some \<lparr>val = x, level = k, parent = p, left_son = ptr l, right_son = ptr r\<rparr>"
    by simp
  ultimately show ?thesis using Node by simp
qed

lemma repr_root_level:
  "repr h p t \<Longrightarrow> ptr t = Some a \<Longrightarrow> \<exists>n. h a = Some n \<and> level n = lvl t"
  by (cases t) auto

lemma ptr_set_level [simp]: "ptr (set_level t k) = ptr t"
  by (cases t) simp_all

lemma refines_DecreaseLevel: "refines DecreaseLevel_h DecreaseLevel"
  unfolding refines_def
proof (intro allI impI)
  fix h :: "'a heap" and p t a
  assume a: "repr h p t" "distinct (addrs t)" "ptr t = Some a"
  from a(3) obtain l x lv r where t: "t = Node l a x lv r" by (cases t) auto
  from a(1) t have ca: "h a = Some \<lparr>val = x, level = lv, parent = p, left_son = ptr l, right_son = ptr r\<rparr>"
    and rl: "repr h (Some a) l" and rr: "repr h (Some a) r"
    by simp_all
  from a(2) t have d: "distinct (addrs r)" "a \<notin> set (addrs l)"
      "a \<notin> set (addrs r)" "set (addrs l) \<inter> set (addrs r) = {}"
    by auto
  define e where "e = (if l = Null \<or> r = Null then 1 else min (lvl l) (lvl r) + 1)"
  have exp: "expected_level_h h \<lparr>val = x, level = lv, parent = p, left_son = ptr l, right_son = ptr r\<rparr> = Some e"
  proof (cases "ptr l")
    case None
    then show ?thesis by (simp add: e_def expected_level_h_def)
  next
    case L: (Some la)
    show ?thesis
    proof (cases "ptr r")
      case None
      with L show ?thesis by (simp add: e_def expected_level_h_def)
    next
      case R: (Some ra)
      from repr_root_level[OF rl L] repr_root_level[OF rr R] L R show ?thesis
        by (auto simp add: e_def expected_level_h_def)
    qed
  qed
  show "\<exists>h' a' t'. DecreaseLevel t = Some t' \<and> DecreaseLevel_h h a = Some (h', a')
      \<and> ptr t' = Some a' \<and> repr h' p t' \<and> entries t' = entries t
      \<and> (\<forall>b. b \<notin> set (addrs t) \<longrightarrow> h' b = h b)"
  proof (cases "e < lv")
    case False
    with ca exp a(1) t show ?thesis
      by (simp add: DecreaseLevel_h_def e_def[symmetric] Let_def)
  next
    case True
    let ?c = "\<lparr>val = x, level = e, parent = p, left_son = ptr l, right_son = ptr r\<rparr>"
    show ?thesis
    proof (cases "r \<noteq> Null \<and> e < lvl r")
      case False
      define h1 where "h1 = h(a \<mapsto> ?c)"
      have run: "DecreaseLevel_h h a = Some (h1, a)"
      proof (cases "ptr r")
        case None
        with ca exp True show ?thesis by (simp add: DecreaseLevel_h_def h1_def)
      next
        case (Some ra)
        with d(3) have "ra \<noteq> a" using ptr_in_addrs[of r ra] by auto
        moreover from repr_root_level[OF rr Some] obtain n where "h ra = Some n" "level n = lvl r"
          by blast
        moreover from Some have "r \<noteq> Null" by auto
        ultimately show ?thesis using ca exp True Some False
          by (simp add: DecreaseLevel_h_def h1_def)
      qed
      have "repr h1 (Some a) l" using rl
        by (rule repr_outside) (use d in \<open>auto simp add: h1_def\<close>)
      moreover have "repr h1 (Some a) r" using rr
        by (rule repr_outside) (use d in \<open>auto simp add: h1_def\<close>)
      ultimately have "repr h1 p (Node l a x e r)" by (simp add: h1_def)
      moreover have "DecreaseLevel t = Some (Node l a x e r)"
        using t True False unfolding e_def by (auto simp add: Let_def)
      moreover have "\<forall>b. b \<notin> set (addrs t) \<longrightarrow> h1 b = h b"
        using t by (simp add: h1_def)
      ultimately show ?thesis using run t by simp
    next
      case R: True
      then obtain ra where ra: "ptr r = Some ra" by (cases r) auto
      with d(3) have raa: "ra \<noteq> a" using ptr_in_addrs[of r ra] by auto
      from repr_root_level[OF rr ra] obtain n where n: "h ra = Some n" "level n = lvl r"
        by blast
      define h2 where "h2 = h(a \<mapsto> ?c, ra \<mapsto> n\<lparr>level := e\<rparr>)"
      have run: "DecreaseLevel_h h a = Some (h2, a)"
        using ca exp True ra raa n R by (simp add: DecreaseLevel_h_def h2_def)
      have "repr h2 (Some a) l" using rl
      proof (rule repr_outside)
        fix b assume "b \<in> set (addrs l)"
        with d ptr_in_addrs[OF ra] have "b \<noteq> a" "b \<noteq> ra" by auto
        then show "h2 b = h b" by (simp add: h2_def)
      qed
      moreover have "repr h2 (Some a) (set_level r e)"
        using rr d(1)
      proof (rule repr_relevel)
        fix b assume "b \<in> set (addrs r)" "ptr r \<noteq> Some b"
        with ra d show "h2 b = h b" by (auto simp add: h2_def)
      next
        fix q m assume "ptr r = Some q" "h q = Some m"
        with ra n show "h2 q = Some (m\<lparr>level := e\<rparr>)" by (simp add: h2_def)
      qed
      moreover have "h2 a = Some ?c" using raa by (simp add: h2_def)
      ultimately have "repr h2 p (Node l a x e (set_level r e))" by simp
      moreover have "DecreaseLevel t = Some (Node l a x e (set_level r e))"
        using t True R unfolding e_def by (auto simp add: Let_def)
      moreover have "\<forall>b. b \<notin> set (addrs t) \<longrightarrow> h2 b = h b"
        using t ptr_in_addrs[OF ra] by (auto simp add: h2_def)
      ultimately show ?thesis using run t by simp
    qed
  qed
qed

lemma refines_Erase_finish:
  "refines Erase_finish_h (\<lambda>t. DecreaseLevel t \<bind> Erase_rebalance)"
proof -
  have eq: "Erase_finish_h =
      (\<lambda>(h::'a heap) a. DecreaseLevel_h h a \<bind> (\<lambda>(h1, v1). Erase_rebalance_h h1 v1))"
    by (intro ext) (simp add: Erase_finish_h_def)
  show ?thesis
    unfolding eq by (intro refines_bind refines_DecreaseLevel refines_Erase_rebalance)
qed

lemma Erase_finish_h_refines:
  assumes "repr h p (Node l a x lv r)" "distinct (addrs (Node l a x lv r))"
    and "DecreaseLevel (Node l a x lv r) = Some t1" "Erase_rebalance t1 = Some t'"
  shows "\<exists>h' a'. Erase_finish_h h a = Some (h', a') \<and> ptr t' = Some a' \<and> repr h' p t'
           \<and> addrs t' = addrs (Node l a x lv r)
           \<and> (\<forall>b. b \<notin> set (addrs (Node l a x lv r)) \<longrightarrow> h' b = h b)"
proof -
  from refinesD[OF refines_Erase_finish assms(1,2), of a] assms(3,4)
  obtain h' a' where "Erase_finish_h h a = Some (h', a')" "ptr t' = Some a'" "repr h' p t'"
    "entries t' = entries (Node l a x lv r)"
    "\<forall>b. b \<notin> set (addrs (Node l a x lv r)) \<longrightarrow> h' b = h b"
    by auto
  then show ?thesis by (auto simp add: addrs_def)
qed

lemma repr_val:
  "repr h p t \<Longrightarrow> (b, y) \<in> set (entries t) \<Longrightarrow> \<exists>n. h b = Some n \<and> val n = y"
  by (induction t arbitrary: p) auto

lemma hd_entries: "t \<noteq> Null \<Longrightarrow> (hd (addrs t), hd (inorder t)) \<in> set (entries t)"
  by (simp add: addrs_def inorder_def hd_map)

lemma last_entries: "t \<noteq> Null \<Longrightarrow> (last (addrs t), last (inorder t)) \<in> set (entries t)"
  by (simp add: addrs_def inorder_def last_map)

lemma Erase_h_refines:
  assumes "repr h p t" "distinct (addrs t)" "Erase t v sz = Some (t', sz')"
  shows "\<exists>h'. Erase_h h (ptr t) v sz = Some (h', ptr t', sz') \<and> repr h' p t'
           \<and> (\<forall>b. b \<notin> set (addrs t) \<longrightarrow> h' b = h b)
           \<and> (\<forall>b. b \<in> set (addrs t) \<longrightarrow> b \<notin> set (addrs t') \<longrightarrow> h' b = None)"
  using assms
proof (induction t arbitrary: p v t' sz' h)
  case Null
  then show ?case by (subst Erase_h.simps) auto
next
  case (Node l a x lv r)
  let ?t = "Node l a x lv r"
  from Node.prems(1) have ca: "h a = Some \<lparr>val = x, level = lv, parent = p, left_son = ptr l, right_son = ptr r\<rparr>"
    and rl: "repr h (Some a) l" and rr: "repr h (Some a) r"
    by simp_all
  from Node.prems(2) have d: "distinct (addrs l)" "distinct (addrs r)" "a \<notin> set (addrs l)"
      "a \<notin> set (addrs r)" "set (addrs l) \<inter> set (addrs r) = {}"
    by auto
  have left: "\<exists>h'. upd h1 a (\<lambda>c. c\<lparr>left_son := ptr l1\<rparr>) \<bind>
            (\<lambda>h2. Erase_finish_h h2 a \<bind> (\<lambda>(h3, a'). Some (h3, Some a', sz'))) = Some (h', ptr t', sz')
          \<and> repr h' p t'
          \<and> (\<forall>b. b \<notin> set (addrs ?t) \<longrightarrow> h' b = h b)
          \<and> (\<forall>b. b \<in> set (addrs ?t) \<longrightarrow> b \<notin> set (addrs t') \<longrightarrow> h' b = None)"
    if e: "Erase l w sz = Some (l1, s1)"
      and h0: "h0 a = Some \<lparr>val = y, level = lv, parent = p, left_son = ptr l, right_son = ptr r\<rparr>"
        "\<And>b. b \<noteq> a \<Longrightarrow> h0 b = h b"
      and ih: "Erase_h h0 (ptr l) w sz = Some (h1, ptr l1, s1)" "repr h1 (Some a) l1"
        "\<forall>b. b \<notin> set (addrs l) \<longrightarrow> h1 b = h0 b"
        "\<forall>b. b \<in> set (addrs l) \<longrightarrow> b \<notin> set (addrs l1) \<longrightarrow> h1 b = None"
      and f: "DecreaseLevel (Node l1 a y lv r) = Some t1" "Erase_rebalance t1 = Some t'"
    for w l1 s1 h0 h1 y t1
  proof -
    from Erase_addrs[OF d(1) e] have a1: "distinct (addrs l1)" "set (addrs l1) \<subseteq> set (addrs l)"
      by simp_all
    let ?c = "\<lparr>val = y, level = lv, parent = p, left_son = ptr l1, right_son = ptr r\<rparr>"
    define h2 where "h2 = h1(a \<mapsto> ?c)"
    from ih(3) d(3) h0(1) have h1a: "h1 a = Some \<lparr>val = y, level = lv, parent = p, left_son = ptr l, right_son = ptr r\<rparr>"
      by simp
    have "repr h2 (Some a) l1" using ih(2)
      by (rule repr_outside) (use a1 d in \<open>auto simp add: h2_def\<close>)
    moreover have "repr h2 (Some a) r" using rr
    proof (rule repr_outside)
      fix b assume "b \<in> set (addrs r)"
      with d have "b \<noteq> a" "b \<notin> set (addrs l)" by auto
      with ih(3) h0(2) show "h2 b = h b" by (simp add: h2_def)
    qed
    ultimately have r2: "repr h2 p (Node l1 a y lv r)" by (simp add: h2_def)
    have d2: "distinct (addrs (Node l1 a y lv r))" using a1 d by auto
    from Erase_finish_h_refines[OF r2 d2 f] obtain h3 a3 where
      3: "Erase_finish_h h2 a = Some (h3, a3)" "ptr t' = Some a3" "repr h3 p t'"
         "addrs t' = addrs (Node l1 a y lv r)"
         "\<forall>b. b \<notin> set (addrs (Node l1 a y lv r)) \<longrightarrow> h3 b = h2 b"
      by blast
    have "upd h1 a (\<lambda>c. c\<lparr>left_son := ptr l1\<rparr>) \<bind>
            (\<lambda>h2. Erase_finish_h h2 a \<bind> (\<lambda>(h3, a'). Some (h3, Some a', sz'))) = Some (h3, ptr t', sz')"
      using h1a 3(1,2) by (simp add: h2_def)
    moreover have "\<forall>b. b \<notin> set (addrs ?t) \<longrightarrow> h3 b = h b"
      using 3(5) a1 ih(3) h0(2) by (auto simp add: h2_def)
    moreover have "\<forall>b. b \<in> set (addrs ?t) \<longrightarrow> b \<notin> set (addrs t') \<longrightarrow> h3 b = None"
      using 3(4,5) ih(4) d by (auto simp add: h2_def)
    ultimately show ?thesis using 3(3) by blast
  qed
  have right: "\<exists>h'. upd h1 a (\<lambda>c. c\<lparr>right_son := ptr r1\<rparr>) \<bind>
            (\<lambda>h2. Erase_finish_h h2 a \<bind> (\<lambda>(h3, a'). Some (h3, Some a', sz'))) = Some (h', ptr t', sz')
          \<and> repr h' p t'
          \<and> (\<forall>b. b \<notin> set (addrs ?t) \<longrightarrow> h' b = h b)
          \<and> (\<forall>b. b \<in> set (addrs ?t) \<longrightarrow> b \<notin> set (addrs t') \<longrightarrow> h' b = None)"
    if e: "Erase r w sz = Some (r1, s1)"
      and h0: "h0 a = Some \<lparr>val = y, level = lv, parent = p, left_son = ptr l, right_son = ptr r\<rparr>"
        "\<And>b. b \<noteq> a \<Longrightarrow> h0 b = h b"
      and ih: "Erase_h h0 (ptr r) w sz = Some (h1, ptr r1, s1)" "repr h1 (Some a) r1"
        "\<forall>b. b \<notin> set (addrs r) \<longrightarrow> h1 b = h0 b"
        "\<forall>b. b \<in> set (addrs r) \<longrightarrow> b \<notin> set (addrs r1) \<longrightarrow> h1 b = None"
      and f: "DecreaseLevel (Node l a y lv r1) = Some t1" "Erase_rebalance t1 = Some t'"
    for w r1 s1 h0 h1 y t1
  proof -
    from Erase_addrs[OF d(2) e] have a1: "distinct (addrs r1)" "set (addrs r1) \<subseteq> set (addrs r)"
      by simp_all
    let ?c = "\<lparr>val = y, level = lv, parent = p, left_son = ptr l, right_son = ptr r1\<rparr>"
    define h2 where "h2 = h1(a \<mapsto> ?c)"
    from ih(3) d(4) h0(1) have h1a: "h1 a = Some \<lparr>val = y, level = lv, parent = p, left_son = ptr l, right_son = ptr r\<rparr>"
      by simp
    have "repr h2 (Some a) r1" using ih(2)
      by (rule repr_outside) (use a1 d in \<open>auto simp add: h2_def\<close>)
    moreover have "repr h2 (Some a) l" using rl
    proof (rule repr_outside)
      fix b assume "b \<in> set (addrs l)"
      with d have "b \<noteq> a" "b \<notin> set (addrs r)" by auto
      with ih(3) h0(2) show "h2 b = h b" by (simp add: h2_def)
    qed
    ultimately have r2: "repr h2 p (Node l a y lv r1)" by (simp add: h2_def)
    have d2: "distinct (addrs (Node l a y lv r1))" using a1 d by auto
    from Erase_finish_h_refines[OF r2 d2 f] obtain h3 a3 where
      3: "Erase_finish_h h2 a = Some (h3, a3)" "ptr t' = Some a3" "repr h3 p t'"
         "addrs t' = addrs (Node l a y lv r1)"
         "\<forall>b. b \<notin> set (addrs (Node l a y lv r1)) \<longrightarrow> h3 b = h2 b"
      by blast
    have "upd h1 a (\<lambda>c. c\<lparr>right_son := ptr r1\<rparr>) \<bind>
            (\<lambda>h2. Erase_finish_h h2 a \<bind> (\<lambda>(h3, a'). Some (h3, Some a', sz'))) = Some (h3, ptr t', sz')"
      using h1a 3(1,2) by (simp add: h2_def)
    moreover have "\<forall>b. b \<notin> set (addrs ?t) \<longrightarrow> h3 b = h b"
      using 3(5) a1 ih(3) h0(2) by (auto simp add: h2_def)
    moreover have "\<forall>b. b \<in> set (addrs ?t) \<longrightarrow> b \<notin> set (addrs t') \<longrightarrow> h3 b = None"
      using 3(4,5) ih(4) d by (auto simp add: h2_def)
    ultimately show ?thesis using 3(3) by blast
  qed
  consider (lt) "v < x" | (gt) "x < v" "\<not> v < x" | (leaf) "\<not> v < x" "\<not> x < v" "l = Null" "r = Null"
    | (succ) "\<not> v < x" "\<not> x < v" "l = Null" "r \<noteq> Null" | (pred) "\<not> v < x" "\<not> x < v" "l \<noteq> Null"
    by (metis less_asym)
  then show ?case
  proof cases
    case lt
    with Node.prems(3) obtain l1 t1 where
      e: "Erase l v sz = Some (l1, sz')" "DecreaseLevel (Node l1 a x lv r) = Some t1"
         "Erase_rebalance t1 = Some t'"
      by (auto simp del: DecreaseLevel.simps split: bind_splits)
    from Node.IH(1)[OF rl d(1) e(1)] obtain h1 where
      1: "Erase_h h (ptr l) v sz = Some (h1, ptr l1, sz')" "repr h1 (Some a) l1"
         "\<forall>b. b \<notin> set (addrs l) \<longrightarrow> h1 b = h b"
         "\<forall>b. b \<in> set (addrs l) \<longrightarrow> b \<notin> set (addrs l1) \<longrightarrow> h1 b = None"
      by blast
    from left[OF e(1) ca _ 1 e(2,3)] obtain h' where
      2: "upd h1 a (\<lambda>c. c\<lparr>left_son := ptr l1\<rparr>) \<bind>
            (\<lambda>h2. Erase_finish_h h2 a \<bind> (\<lambda>(h3, a'). Some (h3, Some a', sz'))) = Some (h', ptr t', sz')"
         "repr h' p t'" "\<forall>b. b \<notin> set (addrs ?t) \<longrightarrow> h' b = h b"
         "\<forall>b. b \<in> set (addrs ?t) \<longrightarrow> b \<notin> set (addrs t') \<longrightarrow> h' b = None"
      by blast
    have "Erase_h h (ptr ?t) v sz = Some (h', ptr t', sz')"
      using ca lt 1(1) 2(1) by (subst Erase_h.simps) simp
    with 2 show ?thesis by blast
  next
    case gt
    with Node.prems(3) obtain r1 t1 where
      e: "Erase r v sz = Some (r1, sz')" "DecreaseLevel (Node l a x lv r1) = Some t1"
         "Erase_rebalance t1 = Some t'"
      by (auto simp del: DecreaseLevel.simps split: bind_splits)
    from Node.IH(2)[OF rr d(2) e(1)] obtain h1 where
      1: "Erase_h h (ptr r) v sz = Some (h1, ptr r1, sz')" "repr h1 (Some a) r1"
         "\<forall>b. b \<notin> set (addrs r) \<longrightarrow> h1 b = h b"
         "\<forall>b. b \<in> set (addrs r) \<longrightarrow> b \<notin> set (addrs r1) \<longrightarrow> h1 b = None"
      by blast
    from right[OF e(1) ca _ 1 e(2,3)] obtain h' where
      2: "upd h1 a (\<lambda>c. c\<lparr>right_son := ptr r1\<rparr>) \<bind>
            (\<lambda>h2. Erase_finish_h h2 a \<bind> (\<lambda>(h3, a'). Some (h3, Some a', sz'))) = Some (h', ptr t', sz')"
         "repr h' p t'" "\<forall>b. b \<notin> set (addrs ?t) \<longrightarrow> h' b = h b"
         "\<forall>b. b \<in> set (addrs ?t) \<longrightarrow> b \<notin> set (addrs t') \<longrightarrow> h' b = None"
      by blast
    have "Erase_h h (ptr ?t) v sz = Some (h', ptr t', sz')"
      using ca gt 1(1) 2(1) by (subst Erase_h.simps) simp
    with 2 show ?thesis by blast
  next
    case leaf
    with Node.prems(3) have "t' = Null" "sz' = sz - 1" by auto
    moreover have "Erase_h h (ptr ?t) v sz = Some (h(a := None), None, sz - 1)"
      using ca leaf by (subst Erase_h.simps) simp
    ultimately show ?thesis using leaf by auto
  next
    case succ
    let ?sv = "hd (inorder r)" and ?s = "hd (addrs r)"
    from succ(4) leftmost_value[of r] obtain s0 where
      s0: "leftmost r = Some s0" "value_of s0 = Some ?sv" by blast
    with succ Node.prems(3) obtain r1 t1 where
      e: "Erase r ?sv sz = Some (r1, sz')" "DecreaseLevel (Node l a ?sv lv r1) = Some t1"
         "Erase_rebalance t1 = Some t'"
      by (auto simp del: DecreaseLevel.simps split: bind_splits)
    from succ(4) obtain ra where ra: "ptr r = Some ra" by (cases r) auto
    from succ(4) have sin: "?s \<in> set (addrs r)" by simp
    with d(4) have sa: "?s \<noteq> a" by auto
    from repr_val[OF rr hd_entries[OF succ(4)]] obtain sn where
      sn: "h ?s = Some sn" "val sn = ?sv" by blast
    have succ_h: "Successor_h h a = Some ?s"
      using ca ra leftmost_loop_hd[OF rr ra] by (simp add: Successor_h_def)
    let ?c0 = "\<lparr>val = ?sv, level = lv, parent = p, left_son = ptr l, right_son = ptr r\<rparr>"
    define h0 where "h0 = h(a \<mapsto> ?c0)"
    have h0a: "h0 a = Some ?c0" and h0o: "\<And>b. b \<noteq> a \<Longrightarrow> h0 b = h b"
      by (simp_all add: h0_def)
    have rr0: "repr h0 (Some a) r" using rr
      by (rule repr_outside) (use d in \<open>auto simp add: h0_def\<close>)
    from Node.IH(2)[OF rr0 d(2) e(1)] obtain h1 where
      1: "Erase_h h0 (ptr r) ?sv sz = Some (h1, ptr r1, sz')" "repr h1 (Some a) r1"
         "\<forall>b. b \<notin> set (addrs r) \<longrightarrow> h1 b = h0 b"
         "\<forall>b. b \<in> set (addrs r) \<longrightarrow> b \<notin> set (addrs r1) \<longrightarrow> h1 b = None"
      by blast
    from right[OF e(1) h0a h0o 1 e(2,3)] obtain h' where
      2: "upd h1 a (\<lambda>c. c\<lparr>right_son := ptr r1\<rparr>) \<bind>
            (\<lambda>h2. Erase_finish_h h2 a \<bind> (\<lambda>(h3, a'). Some (h3, Some a', sz'))) = Some (h', ptr t', sz')"
         "repr h' p t'" "\<forall>b. b \<notin> set (addrs ?t) \<longrightarrow> h' b = h b"
         "\<forall>b. b \<in> set (addrs ?t) \<longrightarrow> b \<notin> set (addrs t') \<longrightarrow> h' b = None"
      by blast
    have "Erase_h h (ptr ?t) v sz = Some (h', ptr t', sz')"
      using ca succ ra succ_h sn sa 1(1) 2(1)
      by (subst Erase_h.simps) (simp add: h0_def)
    with 2 show ?thesis by blast
  next
    case pred
    let ?sv = "last (inorder l)" and ?s = "last (addrs l)"
    from pred(3) rightmost_value[of l] obtain s0 where
      s0: "rightmost l = Some s0" "value_of s0 = Some ?sv" by blast
    with pred Node.prems(3) obtain l1 t1 where
      e: "Erase l ?sv sz = Some (l1, sz')" "DecreaseLevel (Node l1 a ?sv lv r) = Some t1"
         "Erase_rebalance t1 = Some t'"
      by (auto simp del: DecreaseLevel.simps split: bind_splits)
    from pred(3) obtain la where la: "ptr l = Some la" by (cases l) auto
    from pred(3) have sin: "?s \<in> set (addrs l)" by simp
    with d(3) have sa: "?s \<noteq> a" by auto
    from repr_val[OF rl last_entries[OF pred(3)]] obtain sn where
      sn: "h ?s = Some sn" "val sn = ?sv" by blast
    have pred_h: "Predecessor_h h a = Some ?s"
      using ca la rightmost_loop_last[OF rl la] by (simp add: Predecessor_h_def)
    let ?c0 = "\<lparr>val = ?sv, level = lv, parent = p, left_son = ptr l, right_son = ptr r\<rparr>"
    define h0 where "h0 = h(a \<mapsto> ?c0)"
    have h0a: "h0 a = Some ?c0" and h0o: "\<And>b. b \<noteq> a \<Longrightarrow> h0 b = h b"
      by (simp_all add: h0_def)
    have rl0: "repr h0 (Some a) l" using rl
      by (rule repr_outside) (use d in \<open>auto simp add: h0_def\<close>)
    from Node.IH(1)[OF rl0 d(1) e(1)] obtain h1 where
      1: "Erase_h h0 (ptr l) ?sv sz = Some (h1, ptr l1, sz')" "repr h1 (Some a) l1"
         "\<forall>b. b \<notin> set (addrs l) \<longrightarrow> h1 b = h0 b"
         "\<forall>b. b \<in> set (addrs l) \<longrightarrow> b \<notin> set (addrs l1) \<longrightarrow> h1 b = None"
      by blast
    from left[OF e(1) h0a h0o 1 e(2,3)] obtain h' where
      2: "upd h1 a (\<lambda>c. c\<lparr>left_son := ptr l1\<rparr>) \<bind>
            (\<lambda>h2. Erase_finish_h h2 a \<bind> (\<lambda>(h3, a'). Some (h3, Some a', sz'))) = Some (h', ptr t', sz')"
         "repr h' p t'" "\<forall>b. b \<notin> set (addrs ?t) \<longrightarrow> h' b = h b"
         "\<forall>b. b \<in> set (addrs ?t) \<longrightarrow> b \<notin> set (addrs t') \<longrightarrow> h' b = None"
      by blast
    have "Erase_h h (ptr ?t) v sz = Some (h', ptr t', sz')"
      using ca pred la pred_h sn sa 1(1) 2(1)
      by (subst Erase_h.simps) (simp add: h0_def)
    with 2 show ?thesis by blast
  qed
qed

lemma Insert_addrs_mono:
  assumes "bst t" "Insert t v fresh sz = Some (t', ins, sz')"
  shows "set (addrs t) \<subseteq> set (addrs t')"
proof (cases "v \<in> set (inorder t)")
  case True
  from Insert_present[OF assms(1) True, of fresh sz] assms(2) show ?thesis
    by (auto simp add: addrs_def)
next
  case False
  from Insert_absent[OF assms(1) False, of fresh sz] assms(2) show ?thesis
    by (auto simp add: addrs_def)
qed

lemma run_ops_h_refines:
  assumes "repr h None t" "dom h = set (addrs t)" "bst t" "distinct (addrs t)"
    "distinct (fresh_addrs ops)" "set (fresh_addrs ops) \<inter> set (addrs t) = {}"
  shows "\<exists>h' t' sz'.
           run_ops_h \<lparr>h_nodes = h, h_root = ptr t, h_size = sz\<rparr> ops
             = Some \<lparr>h_nodes = h', h_root = ptr t', h_size = sz'\<rparr>
         \<and> run_ops \<lparr>tree_root = t, set_size = sz\<rparr> ops = Some \<lparr>tree_root = t', set_size = sz'\<rparr>
         \<and> repr h' None t' \<and> dom h' = set (addrs t') \<and> bst t' \<and> distinct (addrs t')"
  using assms
proof (induction ops arbitrary: h t sz)
  case Nil
  then show ?case by simp
next
  case (Cons o1 ops)
  show ?case
  proof (cases o1)
    case (Op_insert v fresh)
    with Cons.prems have fr: "fresh \<notin> set (addrs t)" "distinct (fresh_addrs ops)"
        "fresh \<notin> set (fresh_addrs ops)" "set (fresh_addrs ops) \<inter> set (addrs t) = {}"
      by auto
    from fr(1) Cons.prems(2) have hf: "h fresh = None" by auto
    from Insert_bst[OF Cons.prems(3), of v fresh sz] obtain t' ins sz' where
      t': "Insert t v fresh sz = Some (t', ins, sz')" "bst t'"
        "set (addrs t') \<subseteq> insert fresh (set (addrs t))"
      by blast
    from Insert_h_refines[OF Cons.prems(1,4) hf t'(1)] obtain h' a' where
      h': "Insert_h h (ptr t) v fresh sz = Some (h', a', ins, sz')" "ptr t' = Some a'"
        "repr h' (if t = Null then None else None) t'" "distinct (addrs t')"
        "\<forall>b. b \<notin> set (addrs t') \<longrightarrow> h' b = h b"
      by blast
    from h'(3) have r': "repr h' None t'" by simp
    have "dom h' = set (addrs t')"
    proof (intro set_eqI iffI)
      fix b assume "b \<in> dom h'"
      show "b \<in> set (addrs t')"
      proof (rule ccontr)
        assume n: "b \<notin> set (addrs t')"
        with Insert_addrs_mono[OF Cons.prems(3) t'(1)] have "b \<notin> set (addrs t)" by auto
        with Cons.prems(2) have "h b = None" by auto
        with h'(5) n \<open>b \<in> dom h'\<close> show False by auto
      qed
    next
      fix b assume "b \<in> set (addrs t')"
      with repr_in_heap[OF r'] show "b \<in> dom h'" by auto
    qed
    moreover have "set (fresh_addrs ops) \<inter> set (addrs t') = {}"
      using t'(3) fr by auto
    ultimately obtain h2 t2 sz2 where
      "run_ops_h \<lparr>h_nodes = h', h_root = ptr t', h_size = sz'\<rparr> ops
             = Some \<lparr>h_nodes = h2, h_root = ptr t2, h_size = sz2\<rparr>"
      "run_ops \<lparr>tree_root = t', set_size = sz'\<rparr> ops = Some \<lparr>tree_root = t2, set_size = sz2\<rparr>"
      "repr h2 None t2" "dom h2 = set (addrs t2)" "bst t2" "distinct (addrs t2)"
      using Cons.IH[OF r' _ t'(2) h'(4) fr(2), of sz'] by blast
    with Op_insert t'(1) h'(1,2) show ?thesis
      by (simp add: Set_insert_def)
  next
    case (Op_erase v)
    with Cons.prems have fr: "distinct (fresh_addrs ops)"
        "set (fresh_addrs ops) \<inter> set (addrs t) = {}"
      by auto
    from Erase_inorder[OF Cons.prems(3), of v sz] obtain t' sz' where
      t': "Erase t v sz = Some (t', sz')" "inorder t' = remove1 v (inorder t)"
      by blast
    from bst_remove1[OF Cons.prems(3) t'(2)] have b': "bst t'" .
    from Erase_addrs[OF Cons.prems(4) t'(1)] have a': "distinct (addrs t')"
        "set (addrs t') \<subseteq> set (addrs t)"
      by simp_all
    from Erase_h_refines[OF Cons.prems(1,4) t'(1)] obtain h' where
      h': "Erase_h h (ptr t) v sz = Some (h', ptr t', sz')" "repr h' None t'"
        "\<forall>b. b \<notin> set (addrs t) \<longrightarrow> h' b = h b"
        "\<forall>b. b \<in> set (addrs t) \<longrightarrow> b \<notin> set (addrs t') \<longrightarrow> h' b = None"
      by blast
    have "dom h' = set (addrs t')"
    proof (intro set_eqI iffI)
      fix b assume "b \<in> dom h'"
      show "b \<in> set (addrs t')"
      proof (rule ccontr)
        assume n: "b \<notin> set (addrs t')"
        show False
        proof (cases "b \<in> set (addrs t)")
          case True
          with h'(4) n \<open>b \<in> dom h'\<close> show False by auto
        next
          case False
          with Cons.prems(2) have "h b = None" by auto
          with h'(3) False \<open>b \<in> dom h'\<close> show False by auto
        qed
      qed
    next
      fix b assume "b \<in> set (addrs t')"
      with repr_in_heap[OF h'(2)] show "b \<in> dom h'" by auto
    qed
    moreover have "set (fresh_addrs ops) \<inter> set (addrs t') = {}"
      using a'(2) fr by auto
    ultimately obtain h2 t2 sz2 where
      "run_ops_h \<lparr>h_nodes = h', h_root = ptr t', h_size = sz'\<rparr> ops
             = Some \<lparr>h_nodes = h2, h_root = ptr t2, h_size = sz2\<rparr>"
      "run_ops \<lparr>tree_root = t', set_size = sz'\<rparr> ops = Some \<lparr>tree_root = t2, set_size = sz2\<rparr>"
      "repr h2 None t2" "dom h2 = set (addrs t2)" "bst t2" "distinct (addrs t2)"
      using Cons.IH[OF h'(2) _ b' a'(1) fr(1), of sz'] by blast
    with Op_erase t'(1) h'(1) show ?thesis
      by (simp add: Set_erase_def)
  qed
qed

lemma reachable_heap:
  assumes "distinct (fresh_addrs ops)"
  shows "\<exists>h t sz. run_ops_h Set_h_default ops = Some \<lparr>h_nodes = h, h_root = ptr t, h_size = sz\<rparr>
           \<and> run_ops Set_default ops = Some \<lparr>tree_root = t, set_size = sz\<rparr>
           \<and> repr h None t \<and> dom h = set (addrs t) \<and> bst t \<and> distinct (addrs t)"
  using run_ops_h_refines[of Map.empty Null ops EMPTY_SIZE] assms
  by (simp add: Set_h_default_def Set_default_def)

subsection \<open>The claims\<close>

text \<open>
  C1 (the flag of \<open>insert\<close> is true iff a new element was added; the source's comment
  says the same). Inserting 5 into the empty set adds a node and returns \<open>false\<close>:
  the flag is \<open>set_size_ == previous_size\<close>, the opposite test (\<open>Set_insert_flag\<close>: on
  every ordered set the flag is true iff the value was already stored).
\<close>

theorem C1_insert_new_returns_false:
  "Set_insert this Set_default (5::int) fresh =
     Some ((\<lparr>iterator_owner = this, current_vertex = Some fresh\<rparr>, False),
           \<lparr>tree_root = Node Null fresh 5 1 Null, set_size = 1\<rparr>)"
  by (simp add: eval_defs)

text \<open>
  C2 (after any sequence of insert and erase the level invariant holds at every node).
  Inserting 1, 2, 3 and erasing 3 leaves the node of 2 at level 1 with a left son at
  level 1: \<open>Erase\<close> lowers the level and never applies \<open>Skew\<close> to the node itself.
\<close>

theorem C2_level_invariant_broken_by_erase:
  "run_ops Set_default [Op_insert (1::int) 10, Op_insert 2 11, Op_insert 3 12, Op_erase 3] =
     Some \<lparr>tree_root = Node (Node Null 10 1 1 Null) 11 2 1 Null, set_size = 2\<rparr>
   \<and> \<not> aa_inv (Node (Node Null 10 (1::int) 1 Null) 11 2 1 Null)"
  by (simp add: eval_defs)

text \<open>
  C3 (after a move the source is empty: size 0, \<open>empty()\<close>, nothing to traverse).
  Move-assigning the set \<open>{5}\<close> at address 2 to the set \<open>{7}\<close> at address 1 leaves the
  source with the destination's former node and its own former size.
\<close>

theorem C3_source_not_empty_after_move:
  "obj_after (Set_move_assign
       [1 \<mapsto> \<lparr>tree_root = Node Null 20 (7::int) 1 Null, set_size = 1\<rparr>,
        2 \<mapsto> \<lparr>tree_root = Node Null 21 5 1 Null, set_size = 1\<rparr>] 1 2) 2
     = Some \<lparr>tree_root = Node Null 20 7 1 Null, set_size = 1\<rparr>
   \<and> Set_size \<lparr>tree_root = Node Null 20 (7::int) 1 Null, set_size = 1\<rparr> \<noteq> 0
   \<and> \<not> Set_empty \<lparr>tree_root = Node Null 20 (7::int) 1 Null, set_size = 1\<rparr>
   \<and> inorder (Node Null 20 (7::int) 1 Null) = [7]"
  by (simp add: store_defs obj_after_def Set_size_def Set_empty_def EMPTY_SIZE_def)

text \<open>
  C3 as amended: after move construction or move assignment from the object at \<open>s\<close>
  into a different object at \<open>this\<close>, the destination is what the source was (tree and
  size), and the source holds the tree the destination had: none after move
  construction, the destination's former tree after move assignment.
\<close>

theorem C3_move_transfers_tree_and_size:
  assumes "this \<noteq> s" and "st s = Some S"
  shows "(\<exists>st' S'. Set_move_construct st this s = Some st' \<and> st' this = Some S
            \<and> st' s = Some S' \<and> tree_root S' = Null)
       \<and> (\<forall>D. st this = Some D \<longrightarrow>
            (\<exists>st' S'. Set_move_assign st this s = Some st' \<and> st' this = Some S
               \<and> st' s = Some S' \<and> tree_root S' = tree_root D))"
  using assms by (auto simp add: store_defs Set_default_def)

theorem C3_move_transfers_witness:
  "(1::nat) \<noteq> 2
   \<and> ([1 \<mapsto> \<lparr>tree_root = Node Null 20 (7::int) 1 Null, set_size = 1\<rparr>,
        2 \<mapsto> \<lparr>tree_root = Node Null 21 5 1 Null, set_size = 1\<rparr>] :: int store) 2
       = Some \<lparr>tree_root = Node Null 21 5 1 Null, set_size = 1\<rparr>
   \<and> obj_after (Set_move_assign
       [1 \<mapsto> \<lparr>tree_root = Node Null 20 (7::int) 1 Null, set_size = 1\<rparr>,
        2 \<mapsto> \<lparr>tree_root = Node Null 21 5 1 Null, set_size = 1\<rparr>] 1 2) 1
       = Some \<lparr>tree_root = Node Null 21 5 1 Null, set_size = 1\<rparr>
   \<and> map_option tree_root (obj_after (Set_move_assign
       [1 \<mapsto> \<lparr>tree_root = Node Null 20 (7::int) 1 Null, set_size = 1\<rparr>,
        2 \<mapsto> \<lparr>tree_root = Node Null 21 5 1 Null, set_size = 1\<rparr>] 1 2) 2)
       = Some (Node Null 20 7 1 Null)
   \<and> obj_after (Set_move_construct
       [1 \<mapsto> \<lparr>tree_root = Node Null 20 (7::int) 1 Null, set_size = 1\<rparr>,
        2 \<mapsto> \<lparr>tree_root = Node Null 21 5 1 Null, set_size = 1\<rparr>] 1 2) 1
       = Some \<lparr>tree_root = Node Null 21 5 1 Null, set_size = 1\<rparr>
   \<and> map_option tree_root (obj_after (Set_move_construct
       [1 \<mapsto> \<lparr>tree_root = Node Null 20 (7::int) 1 Null, set_size = 1\<rparr>,
        2 \<mapsto> \<lparr>tree_root = Node Null 21 5 1 Null, set_size = 1\<rparr>] 1 2) 2)
       = Some Null"
  using C3_move_transfers_tree_and_size
    [of 1 2 "[1 \<mapsto> \<lparr>tree_root = Node Null 20 (7::int) 1 Null, set_size = 1\<rparr>,
              2 \<mapsto> \<lparr>tree_root = Node Null 21 5 1 Null, set_size = 1\<rparr>]"
        "\<lparr>tree_root = Node Null 21 5 1 Null, set_size = 1\<rparr>"]
  by (auto simp add: obj_after_def)

text \<open>
  C4 (the rebalancing of \<open>Erase\<close> starts with \<open>Skew\<close> on the node itself). On the node
  that \<open>DecreaseLevel\<close> produces in the run above, the source's steps leave the left
  horizontal link in place, and the specified steps rotate it away.
\<close>

theorem C4_rebalance_omits_skew_of_node:
  "Erase_rebalance (Node (Node Null 10 (1::int) 1 Null) 11 2 1 Null) =
     Some (Node (Node Null 10 1 1 Null) 11 2 1 Null)
   \<and> Erase_rebalance_as_specified (Node (Node Null 10 (1::int) 1 Null) 11 2 1 Null) =
     Some (Node Null 10 1 1 (Node Null 11 2 1 Null))"
  by (simp add: eval_defs Erase_rebalance_as_specified_def)

text \<open>
  C5: on a set whose traversal is strictly increasing, \<open>erase(v)\<close> returns; the new
  traversal is the old one without \<open>v\<close>. If \<open>v\<close> was stored the call returns 1, \<open>v\<close>
  is gone and the size is one less; if not it returns 0 and the traversal and the
  size are as before.
\<close>

theorem C5_erase:
  assumes "bst (tree_root S)"
  shows "\<exists>n S'. Set_erase S v = Some (n, S')
           \<and> inorder (tree_root S') = remove1 v (inorder (tree_root S))
           \<and> (if v \<in> set (inorder (tree_root S))
              then n = 1 \<and> v \<notin> set (inorder (tree_root S'))
                \<and> Set_size S' = Set_size S - 1
              else n = 0 \<and> inorder (tree_root S') = inorder (tree_root S)
                \<and> Set_size S' = Set_size S)"
proof -
  from Erase_inorder[OF assms, of v "set_size S"] obtain t' where
    t': "Erase (tree_root S) v (set_size S) =
          Some (t', if v \<in> set (inorder (tree_root S)) then set_size S - 1 else set_size S)"
      "inorder t' = remove1 v (inorder (tree_root S))"
    by blast
  have "v \<notin> set (remove1 v (inorder (tree_root S)))"
    using bst_distinct[OF assms] by simp
  with t' show ?thesis
    by (simp add: Set_erase_def Set_size_def remove1_idem)
qed

theorem C5_erase_witness:
  "bst (tree_root \<lparr>tree_root = Node (Node Null 10 (1::int) 1 Null) 11 2 2 (Node Null 12 3 1 Null),
                   set_size = 3\<rparr>)
   \<and> (\<exists>S'. Set_erase \<lparr>tree_root = Node (Node Null 10 (1::int) 1 Null) 11 2 2 (Node Null 12 3 1 Null),
                       set_size = 3\<rparr> 3 = Some (1, S')
          \<and> inorder (tree_root S') = [1, 2] \<and> Set_size S' = 2)"
proof -
  have h: "bst (tree_root \<lparr>tree_root = Node (Node Null 10 (1::int) 1 Null) 11 2 2 (Node Null 12 3 1 Null),
                   set_size = 3\<rparr>)"
    by (simp add: bst_def)
  from C5_erase[OF h, of 3] h show ?thesis
    by (auto simp add: Set_size_def)
qed

text \<open>
  C6: on a set whose traversal is strictly increasing, \<open>lower_bound(v)\<close> is an iterator
  of the set; if some stored element is not less than \<open>v\<close> it points at a stored
  element that is not less than \<open>v\<close> and not greater than any other such element,
  otherwise it is \<open>end()\<close>; and if \<open>v\<close> is stored, \<open>lower_bound(v) == find(v)\<close>,
  which is not \<open>end()\<close>.
\<close>

theorem C6_lower_bound:
  assumes "bst (tree_root S)"
  shows "iterator_owner (Set_lower_bound this S v) = this
       \<and> (if \<exists>x\<in>set (inorder (tree_root S)). v \<le> x
          then \<exists>a x. current_vertex (Set_lower_bound this S v) = Some a
                 \<and> (a, x) \<in> set (entries (tree_root S)) \<and> v \<le> x
                 \<and> (\<forall>y\<in>set (inorder (tree_root S)). v \<le> y \<longrightarrow> x \<le> y)
          else it_eq (Set_lower_bound this S v) (Set_end this S))
       \<and> (v \<in> set (inorder (tree_root S)) \<longrightarrow>
            it_eq (Set_lower_bound this S v) (Set_find this S v)
            \<and> \<not> it_eq (Set_find this S v) (Set_end this S))"
proof -
  have 1: "iterator_owner (Set_lower_bound this S v) = this"
    by (simp add: Set_lower_bound_def)
  have 2: "(if \<exists>x\<in>set (inorder (tree_root S)). v \<le> x
          then \<exists>a x. current_vertex (Set_lower_bound this S v) = Some a
                 \<and> (a, x) \<in> set (entries (tree_root S)) \<and> v \<le> x
                 \<and> (\<forall>y\<in>set (inorder (tree_root S)). v \<le> y \<longrightarrow> x \<le> y)
          else it_eq (Set_lower_bound this S v) (Set_end this S))"
    using LowerBound_least[OF assms, of v]
    by (simp add: Set_lower_bound_def Set_end_def it_eq_def it_neq_def split: if_splits)
  have 3: "it_eq (Set_lower_bound this S v) (Set_find this S v)
            \<and> \<not> it_eq (Set_find this S v) (Set_end this S)"
    if "v \<in> set (inorder (tree_root S))"
  proof -
    from Find_present[OF assms that] obtain a where a: "Find (tree_root S) v = Some a"
      by blast
    then have "LowerBound (tree_root S) v = Some a"
      by (simp add: LowerBound_def LowerBound_loop_Find)
    with a show ?thesis
      by (simp add: Set_lower_bound_def Set_find_def Set_end_def it_eq_def it_neq_def)
  qed
  from 1 2 3 show ?thesis by blast
qed

theorem C6_lower_bound_witness:
  "bst (tree_root \<lparr>tree_root = Node (Node Null 10 (1::int) 1 Null) 11 2 2 (Node Null 12 3 1 Null),
                   set_size = 3\<rparr>)
   \<and> it_eq (Set_lower_bound 0 \<lparr>tree_root = Node (Node Null 10 (1::int) 1 Null) 11 2 2 (Node Null 12 3 1 Null),
                   set_size = 3\<rparr> 2)
           (Set_find 0 \<lparr>tree_root = Node (Node Null 10 (1::int) 1 Null) 11 2 2 (Node Null 12 3 1 Null),
                   set_size = 3\<rparr> 2)"
proof -
  have h: "bst (tree_root \<lparr>tree_root = Node (Node Null 10 (1::int) 1 Null) 11 2 2 (Node Null 12 3 1 Null),
                   set_size = 3\<rparr>)"
    by (simp add: bst_def)
  from C6_lower_bound[OF h, of 0 2] h show ?thesis
    by simp
qed

text \<open>
  C7: let the heap hold the tree of the set (every heap that a client program
  reaches does, by \<open>reachable_heap\<close>), let \<open>it\<close> point at a node of the set, and let
  its decrement return an iterator \<open>p\<close> at a node (a valid predecessor). Then
  incrementing \<open>it\<close> and decrementing the result returns an iterator equal to \<open>it\<close>,
  and incrementing \<open>p\<close> returns an iterator equal to \<open>it\<close>.
\<close>

theorem C7_iteration_symmetry:
  assumes r: "repr h None (tree_root S)"
    and d: "distinct (addrs (tree_root S))"
    and cv: "current_vertex it = Some a"
    and a: "a \<in> set (addrs (tree_root S))"
    and pred: "it_decr h S it = Some p" "current_vertex p \<noteq> None"
  shows "(\<exists>j k. it_incr h it = Some j \<and> it_decr h S j = Some k \<and> it_eq k it)
       \<and> (\<exists>k. it_incr h p = Some k \<and> it_eq k it)"
proof -
  let ?t = "tree_root S" and ?h = h
  from a obtain i where i: "i < length (addrs ?t)" "addrs ?t ! i = a"
    by (auto simp add: in_set_conv_nth)
  from a have ne: "?t \<noteq> Null" by auto
  then obtain root where root: "ptr ?t = Some root" by (cases ?t) simp_all
  from pred(1) cv obtain q where q: "Prev ?h a = Some q" "p = it\<lparr>current_vertex := q\<rparr>"
    by (auto simp add: it_decr_def split: bind_splits)
  with pred(2) have qn: "q \<noteq> None" by simp
  have "i \<noteq> 0"
  proof
    assume "i = 0"
    with i ne have "a = hd (addrs ?t)" by (simp add: hd_conv_nth)
    with Prev_hd[OF r d ne] q(1) qn show False by simp
  qed
  then obtain j where j: "i = Suc j" by (cases i) simp_all
  with i(1) have sj: "Suc j < length (addrs ?t)" by simp
  from Prev_step[OF r d sj] i(2) j q(1) have qj: "q = Some (addrs ?t ! j)" by simp
  from Next_step[OF r d sj] i(2) j have "Next ?h (addrs ?t ! j) = Some (Some a)" by simp
  with q(2) qj cv have rev: "it_incr ?h p = Some it"
    by (simp add: it_incr_def)
  have self: "it_eq it it" by (simp add: it_eq_def it_neq_def)
  have forth: "\<exists>j k. it_incr ?h it = Some j \<and> it_decr ?h S j = Some k \<and> it_eq k it"
  proof (cases "Suc i < length (addrs ?t)")
    case True
    from Next_step[OF r d True] i(2) cv have
      1: "it_incr ?h it = Some (it\<lparr>current_vertex := Some (addrs ?t ! Suc i)\<rparr>)"
      by (simp add: it_incr_def)
    from Prev_step[OF r d True] i(2) cv have
      2: "it_decr ?h S (it\<lparr>current_vertex := Some (addrs ?t ! Suc i)\<rparr>) = Some it"
      by (simp add: it_decr_def)
    from 1 2 self show ?thesis by blast
  next
    case False
    with i(1) have "i = length (addrs ?t) - 1" by arith
    with i(2) ne have al: "a = last (addrs ?t)" by (simp add: last_conv_nth)
    from Next_last[OF r d ne] al cv have
      1: "it_incr ?h it = Some (it\<lparr>current_vertex := None\<rparr>)"
      by (simp add: it_incr_def)
    from rightmost_loop_last[OF r root] al root cv have
      2: "it_decr ?h S (it\<lparr>current_vertex := None\<rparr>) = Some it"
      by (simp add: it_decr_def)
    from 1 2 self show ?thesis by blast
  qed
  from forth rev self show ?thesis by blast
qed

theorem C7_iteration_symmetry_witness:
  "repr (heap_of (Node (Node Null 10 (1::int) 1 Null) 11 2 2 (Node Null 12 3 1 Null))) None
     (Node (Node Null 10 (1::int) 1 Null) 11 2 2 (Node Null 12 3 1 Null))
   \<and> distinct (addrs (Node (Node Null 10 (1::int) 1 Null) 11 2 2 (Node Null 12 3 1 Null)))
   \<and> (11::nat) \<in> set (addrs (Node (Node Null 10 (1::int) 1 Null) 11 2 2 (Node Null 12 3 1 Null)))
   \<and> it_decr (heap_of (Node (Node Null 10 (1::int) 1 Null) 11 2 2 (Node Null 12 3 1 Null)))
        \<lparr>tree_root = Node (Node Null 10 (1::int) 1 Null) 11 2 2 (Node Null 12 3 1 Null),
              set_size = 3\<rparr>
        \<lparr>iterator_owner = 0, current_vertex = Some 11\<rparr>
      = Some \<lparr>iterator_owner = 0, current_vertex = Some 10\<rparr>
   \<and> it_incr (heap_of (Node (Node Null 10 (1::int) 1 Null) 11 2 2 (Node Null 12 3 1 Null)))
        \<lparr>iterator_owner = 0, current_vertex = Some 10\<rparr>
      = Some \<lparr>iterator_owner = 0, current_vertex = Some 11\<rparr>"
proof -
  let ?t = "Node (Node Null 10 (1::int) 1 Null) 11 2 2 (Node Null 12 3 1 Null)"
  let ?S = "\<lparr>tree_root = ?t, set_size = 3\<rparr>"
  have d: "distinct (addrs (tree_root ?S))" by simp
  have r: "repr (heap_of (tree_root ?S)) None (tree_root ?S)" using d by (rule repr_heap_of)
  have a: "(11::nat) \<in> set (addrs (tree_root ?S))" by simp
  have c: "current_vertex \<lparr>iterator_owner = 0, current_vertex = Some 11\<rparr> = Some 11" by simp
  have p: "it_decr (heap_of (tree_root ?S)) ?S \<lparr>iterator_owner = 0, current_vertex = Some 11\<rparr>
      = Some \<lparr>iterator_owner = 0, current_vertex = Some 10\<rparr>"
    by (simp add: it_decr_def heap_of_def Prev_def Predecessor_h_def rightmost_loop.simps)
  have n: "current_vertex \<lparr>iterator_owner = 0, current_vertex = Some 10\<rparr> \<noteq> None" by simp
  from C7_iteration_symmetry[OF r d c a p n] r d a p show ?thesis
    by (auto simp add: it_eq_def it_neq_def)
qed

text \<open>
  C8: on a set whose traversal is strictly increasing, \<open>insert(v)\<close> returns an iterator
  of the set at a node of the new tree that holds \<open>v\<close>. If \<open>v\<close> was stored, that
  node held \<open>v\<close> before the call and the traversal is unchanged; if not, it is the
  node just allocated.
\<close>

theorem C8_insert_iterator:
  assumes "bst (tree_root S)"
  shows "\<exists>a b S'. Set_insert this S v fresh =
             Some ((\<lparr>iterator_owner = this, current_vertex = Some a\<rparr>, b), S')
           \<and> (a, v) \<in> set (entries (tree_root S'))
           \<and> (if v \<in> set (inorder (tree_root S))
              then (a, v) \<in> set (entries (tree_root S))
                \<and> entries (tree_root S') = entries (tree_root S)
              else a = fresh)"
proof (cases "v \<in> set (inorder (tree_root S))")
  case True
  from Insert_present[OF assms True, of fresh "set_size S"] obtain t' ins where
    "Insert (tree_root S) v fresh (set_size S) = Some (t', ins, set_size S)"
    "entries t' = entries (tree_root S)" "(ins, v) \<in> set (entries (tree_root S))"
    by blast
  with True show ?thesis by (auto simp add: Set_insert_def)
next
  case False
  from Insert_absent[OF assms False, of fresh "set_size S"] obtain t' xs ys where
    "Insert (tree_root S) v fresh (set_size S) = Some (t', fresh, set_size S + 1)"
    "entries t' = xs @ (fresh, v) # ys"
    by blast
  with False show ?thesis by (auto simp add: Set_insert_def)
qed

theorem C8_insert_iterator_witness:
  "bst (tree_root \<lparr>tree_root = Node (Node Null 10 (1::int) 1 Null) 11 2 2 (Node Null 12 3 1 Null),
                   set_size = 3\<rparr>)
   \<and> (\<exists>a b S'. Set_insert 0 \<lparr>tree_root = Node (Node Null 10 (1::int) 1 Null) 11 2 2 (Node Null 12 3 1 Null),
                   set_size = 3\<rparr> 3 13
                = Some ((\<lparr>iterator_owner = 0, current_vertex = Some a\<rparr>, b), S')
          \<and> (a, 3) \<in> set (entries (tree_root S')) \<and> a = 12)"
proof -
  have h: "bst (tree_root \<lparr>tree_root = Node (Node Null 10 (1::int) 1 Null) 11 2 2 (Node Null 12 3 1 Null),
                   set_size = 3\<rparr>)"
    by (simp add: bst_def)
  from C8_insert_iterator[OF h, of 0 3 13] h show ?thesis
    by auto
qed

text \<open>
  C9: let the heap hold the tree of a non-empty set (every heap that a client
  program reaches does, by \<open>reachable_heap\<close>). Then \<open>begin()\<close> is at the first node of
  the traversal, \<open>Prev\<close> of that node returns \<open>nullptr\<close>, and the decrement of
  \<open>begin()\<close> returns the end iterator.
\<close>

theorem C9_decrement_begin:
  assumes "repr h None (tree_root S)" and "tree_root S \<noteq> Null"
    and "distinct (addrs (tree_root S))"
  shows "Prev h (hd (addrs (tree_root S))) = Some None
       \<and> current_vertex (Set_begin this S) = Some (hd (addrs (tree_root S)))
       \<and> it_decr h S (Set_begin this S) = Some (Set_end this S)
       \<and> it_eq (Set_end this S) (Set_end this S)"
proof -
  have 1: "Prev h (hd (addrs (tree_root S))) = Some None"
    using assms(1,3,2) by (rule Prev_hd)
  have 2: "current_vertex (Set_begin this S) = Some (hd (addrs (tree_root S)))"
    using assms(2) by (simp add: Set_begin_def begin_loop_hd)
  have 3: "it_decr h S (Set_begin this S) = Some (Set_end this S)"
    using 1 2 by (simp add: it_decr_def Set_begin_def Set_end_def)
  have 4: "it_eq (Set_end this S) (Set_end this S)"
    by (simp add: it_eq_def it_neq_def)
  from 1 2 3 4 show ?thesis by blast
qed

theorem C9_decrement_begin_witness:
  "repr (heap_of (Node (Node Null 10 (1::int) 1 Null) 11 2 2 (Node Null 12 3 1 Null))) None
     (Node (Node Null 10 (1::int) 1 Null) 11 2 2 (Node Null 12 3 1 Null))
   \<and> tree_root \<lparr>tree_root = Node (Node Null 10 (1::int) 1 Null) 11 2 2 (Node Null 12 3 1 Null),
              set_size = 3\<rparr> \<noteq> Null
   \<and> distinct (addrs (Node (Node Null 10 (1::int) 1 Null) 11 2 2 (Node Null 12 3 1 Null)))
   \<and> current_vertex (Set_begin 0 \<lparr>tree_root = Node (Node Null 10 (1::int) 1 Null) 11 2 2 (Node Null 12 3 1 Null),
              set_size = 3\<rparr>) = Some 10
   \<and> it_decr (heap_of (Node (Node Null 10 (1::int) 1 Null) 11 2 2 (Node Null 12 3 1 Null)))
        \<lparr>tree_root = Node (Node Null 10 (1::int) 1 Null) 11 2 2 (Node Null 12 3 1 Null),
              set_size = 3\<rparr>
        (Set_begin 0 \<lparr>tree_root = Node (Node Null 10 (1::int) 1 Null) 11 2 2 (Node Null 12 3 1 Null),
              set_size = 3\<rparr>)
      = Some \<lparr>iterator_owner = 0, current_vertex = None\<rparr>"
proof -
  let ?t = "Node (Node Null 10 (1::int) 1 Null) 11 2 2 (Node Null 12 3 1 Null)"
  let ?S = "\<lparr>tree_root = ?t, set_size = 3\<rparr>"
  have d: "distinct (addrs (tree_root ?S))" by simp
  have r: "repr (heap_of (tree_root ?S)) None (tree_root ?S)" using d by (rule repr_heap_of)
  have n: "tree_root ?S \<noteq> Null" by simp
  from C9_decrement_begin[OF r n d, of 0] r n d show ?thesis
    by (simp add: Set_end_def)
qed

text \<open>
  C10: move-assigning a set to itself changes nothing: the store, and with it the
  object's root, size and traversal, is as before.
\<close>

theorem C10_self_move_assign:
  "st a = Some S \<Longrightarrow> Set_move_assign st a a = Some st"
  by (simp add: store_defs fun_upd_idem)

theorem C10_self_move_assign_witness:
  "([1 \<mapsto> \<lparr>tree_root = Node Null 20 (7::int) 1 Null, set_size = 1\<rparr>] :: int store) 1
     = Some \<lparr>tree_root = Node Null 20 7 1 Null, set_size = 1\<rparr>
   \<and> Set_move_assign [1 \<mapsto> \<lparr>tree_root = Node Null 20 (7::int) 1 Null, set_size = 1\<rparr>] 1 1
     = Some [1 \<mapsto> \<lparr>tree_root = Node Null 20 (7::int) 1 Null, set_size = 1\<rparr>]"
  using C10_self_move_assign
    [of "[1 \<mapsto> \<lparr>tree_root = Node Null 20 (7::int) 1 Null, set_size = 1\<rparr>]" 1
        "\<lparr>tree_root = Node Null 20 (7::int) 1 Null, set_size = 1\<rparr>"]
  by simp

end
